theory Spec2Isabelle
  imports Main "HOL-Library.Multiset"
begin

section \<open>Entries, sources and the sink\<close>

text \<open>
  A \<open>LogEntry\<close> of \<^verbatim>\<open>lib/log-source.js\<close> is an object \<^verbatim>\<open>{date, msg}\<close>. The date is
  a JavaScript \<open>Date\<close>; the engines only ever subtract two dates, which coerces them to
  their integer millisecond values, so the model keeps that integer.
\<close>

record log_entry =
  date :: int
  msg :: string

text \<open>
  \<^verbatim>\<open>pop()\<close> returns either \<^verbatim>\<open>false\<close> (the source is drained) or a \<open>LogEntry\<close>
  (\<^verbatim>\<open>return this.drained ? false : this.last\<close>). A pull may also fail; \<open>LogSource\<close>
  itself never does, but the engines accept any object with a \<^verbatim>\<open>pop\<close> or
  \<^verbatim>\<open>popAsync\<close> method. A pull fails in one of two ways:
  \<^item> \<open>Throws\<close>: it fails the way its method fails. \<^verbatim>\<open>pop()\<close> raises;
    \<^verbatim>\<open>popAsync()\<close> hands back a promise that rejects.
  \<^item> \<open>ThrowsAtCall\<close>: the call itself raises, also when it is a call of
    \<^verbatim>\<open>popAsync()\<close>. For \<^verbatim>\<open>pop()\<close> this is the same as \<open>Throws\<close>.
\<close>

datatype log_value = LFalse | LEntry log_entry

datatype outcome = Returns log_value | Throws | ThrowsAtCall

text \<open>
  A source is the finite list of outcomes its successive pulls will have. The random
  generator and the wall clock of \<open>LogSource\<close> are replaced by this list; once it is
  used up the source is drained and every later pull returns \<^verbatim>\<open>false\<close>, as the sticky
  \<^verbatim>\<open>drained\<close> flag of \<open>LogSource\<close> makes it do.
\<close>

type_synonym log_source = "outcome list"

fun pop :: "log_source \<Rightarrow> outcome \<times> log_source" where
  "pop [] = (Returns LFalse, [])"
| "pop (r # rest) = (r, rest)"

text \<open>
  \<^verbatim>\<open>popAsync()\<close> advances the source exactly as \<^verbatim>\<open>pop()\<close> does, at the moment of the
  call, and hands back a promise. The promise settles later with
  \<^verbatim>\<open>this.drained ? false : this.last\<close>; as long as no second call is made on the same
  source before the promise is awaited (the pipelining invariant proved below) that is
  the outcome fixed at the call, which is what the model stores for the promise. The
  outcome \<open>Throws\<close> stands for a promise that rejects, and \<open>ThrowsAtCall\<close> for a
  call that raises and hands back no promise.
\<close>

definition popAsync :: "log_source \<Rightarrow> outcome \<times> log_source" where
  "popAsync s = pop s"

text \<open>
  Modelled from the spec: the printer (\<^verbatim>\<open>lib/printer.js\<close>) is not part of the sources
  at hand. Following the sink contract it accepts every \<^verbatim>\<open>print\<close> and \<^verbatim>\<open>done\<close> call
  and returns nothing the engines look at, so a call is just recorded.

  An event is one thing a run does to its collaborators: a call of \<^verbatim>\<open>pop\<close> with its
  outcome, a call of \<^verbatim>\<open>popAsync\<close>, the await of a stored promise with the outcome it
  delivers, or one of the two calls on the printer. \<open>CallRaised i\<close> records that the
  call of \<^verbatim>\<open>popAsync\<close> on source \<open>i\<close> just made has raised. The trace of a run lists
  the events in order.
\<close>

datatype event =
    Pop nat outcome
  | PopAsync nat
  | CallRaised nat
  | Await nat outcome
  | Print log_value
  | Done

datatype status = Running | Completed | Threw | TypeError

section \<open>The ordering structure\<close>

record ranked =
  logEntry :: log_value
  logSourceIndex :: nat

text \<open>
  The comparator both engines hand to the queue:
  \<^verbatim>\<open>(a, b) => a.logEntry.date - b.logEntry.date\<close>. On \<^verbatim>\<open>false\<close> the property
  \<^verbatim>\<open>date\<close> is \<^verbatim>\<open>undefined\<close> and the difference is \<open>NaN\<close>, written \<open>None\<close> here.
\<close>

fun date_of :: "log_value \<Rightarrow> int option" where
  "date_of LFalse = None"
| "date_of (LEntry e) = Some (date e)"

text \<open>
  The difference is a double. A timestamp is the time value of a \<^verbatim>\<open>Date\<close>, a whole
  number of milliseconds of magnitude at most \<open>8.64 * 10\<^sup>1\<^sup>5\<close>, which a double holds
  exactly; the difference of two of them can exceed \<open>2\<^sup>5\<^sup>3\<close>, and is then rounded to
  53 significant bits, to the nearest value and, half way between two, to the one
  with an even significand. \<open>excess m\<close> is the number of bits that \<open>m\<close> has beyond 53.
\<close>

function excess :: "int \<Rightarrow> nat" where
  "excess m = (if m < 2 ^ 53 then 0 else Suc (excess (m div 2)))"
  by pat_completeness auto

termination excess
  by (relation "measure nat") auto

declare excess.simps [simp del]

text \<open>\<open>round_even k m\<close>: the multiple of \<open>2\<^sup>k\<close> nearest to \<open>m\<close>.\<close>

definition round_even :: "nat \<Rightarrow> int \<Rightarrow> int" where
  "round_even k m =
     (let q = m div 2 ^ k; r = m mod 2 ^ k
      in if 2 * r < 2 ^ k \<or> (2 * r = 2 ^ k \<and> even q) then q * 2 ^ k else (q + 1) * 2 ^ k)"

definition to_double :: "int \<Rightarrow> int" where
  "to_double d = sgn d * round_even (excess \<bar>d\<bar>) \<bar>d\<bar>"

definition date_cmp :: "ranked \<Rightarrow> ranked \<Rightarrow> int option" where
  "date_cmp a b =
     (case date_of (logEntry a) of
        None \<Rightarrow> None
      | Some x \<Rightarrow>
          (case date_of (logEntry b) of None \<Rightarrow> None | Some y \<Rightarrow> Some (to_double (x - y))))"

text \<open>Every comparison of a number with \<open>NaN\<close> is false.\<close>

definition negative :: "int option \<Rightarrow> bool" where
  "negative c = (case c of None \<Rightarrow> False | Some d \<Rightarrow> d < 0)"

text \<open>
  Modelled from the spec: the \<open>PriorityQueue\<close> class comes from the package
  \<^verbatim>\<open>@js-sdsl/priority-queue\<close>, whose code is not part of the sources at hand. The
  model is the min-priority container of the spec: built in bulk from a list, \<open>push\<close>
  adds an item, and \<open>pop\<close> removes and returns an item that no other item precedes
  under the comparator. The items are kept in insertion order and, among several
  smallest items, \<open>pop\<close> takes the one inserted first. What is proved below of the
  engines (what is emitted, its order by timestamp, the bookkeeping) does not say
  which of several smallest items comes first; only the two runs on entries with the
  same timestamp, at the end, show that choice. The package keeps a binary heap, in
  which an item that is pushed moves up past the items that the comparator puts after
  it, and past no other: as in the model, it stays behind an item with the same
  timestamp that is in the heap already. Among three or more items with the same
  timestamp the heap can take another one than the model does.
\<close>

definition pq_build :: "ranked list \<Rightarrow> ranked list" where
  "pq_build xs = xs"

definition pq_push :: "ranked list \<Rightarrow> ranked \<Rightarrow> ranked list" where
  "pq_push q x = q @ [x]"

fun pq_min :: "ranked \<Rightarrow> ranked list \<Rightarrow> ranked" where
  "pq_min best [] = best"
| "pq_min best (y # ys) = pq_min (if negative (date_cmp y best) then y else best) ys"

fun pq_pop :: "ranked list \<Rightarrow> (ranked \<times> ranked list) option" where
  "pq_pop [] = None"
| "pq_pop (x # xs) = (let m = pq_min x xs in Some (m, remove1 m (x # xs)))"

section \<open>The blocking engine (\<^verbatim>\<open>sync-sorted-merge.js\<close>)\<close>

record run_state =
  logSources :: "log_source list"
  logEntryQueue :: "ranked list"
  trace :: "event list"
  status :: status

text \<open>
  Lines 42 to 52: the \<^verbatim>\<open>reduce\<close> pulls every source once, in index order, and keeps
  the result when \<^verbatim>\<open>logEntry === false\<close>. A pull that raises ends the run.
\<close>

fun sync_reduce :: "nat list \<Rightarrow> ranked list \<Rightarrow> run_state \<Rightarrow> ranked list \<times> run_state" where
  "sync_reduce [] logEntries st = (logEntries, st)"
| "sync_reduce (index # rest) logEntries st =
     (case pop (logSources st ! index) of
        (Throws, s') \<Rightarrow>
          (logEntries,
           st\<lparr>logSources := (logSources st)[index := s'],
              trace := trace st @ [Pop index Throws],
              status := Threw\<rparr>)
      | (ThrowsAtCall, s') \<Rightarrow>
          (logEntries,
           st\<lparr>logSources := (logSources st)[index := s'],
              trace := trace st @ [Pop index ThrowsAtCall],
              status := Threw\<rparr>)
      | (Returns v, s') \<Rightarrow>
          sync_reduce rest
            (if v = LFalse
             then logEntries @ [\<lparr>logEntry = v, logSourceIndex = index\<rparr>]
             else logEntries)
            (st\<lparr>logSources := (logSources st)[index := s'],
               trace := trace st @ [Pop index (Returns v)]\<rparr>))"

text \<open>
  Lines 61 to 71, one pass through the body of the \<^verbatim>\<open>while\<close> loop, for the item
  \<open>item\<close> that \<^verbatim>\<open>logEntryQueue.pop()\<close> returned and the queue \<open>q'\<close> it left. An index
  outside \<^verbatim>\<open>logSources\<close> reads \<^verbatim>\<open>undefined\<close>, and calling \<^verbatim>\<open>pop\<close> on it is a
  \<open>TypeError\<close>.
\<close>

definition sync_body :: "ranked \<Rightarrow> ranked list \<Rightarrow> run_state \<Rightarrow> run_state" where
  "sync_body item q' st =
     (let i = logSourceIndex item;
          st1 = st\<lparr>logEntryQueue := q', trace := trace st @ [Print (logEntry item)]\<rparr>
      in if length (logSources st1) \<le> i then st1\<lparr>status := TypeError\<rparr>
         else
           (case pop (logSources st1 ! i) of
              (Throws, s') \<Rightarrow>
                st1\<lparr>logSources := (logSources st1)[i := s'],
                    trace := trace st1 @ [Pop i Throws],
                    status := Threw\<rparr>
            | (ThrowsAtCall, s') \<Rightarrow>
                st1\<lparr>logSources := (logSources st1)[i := s'],
                    trace := trace st1 @ [Pop i ThrowsAtCall],
                    status := Threw\<rparr>
            | (Returns nextLogEntry, s') \<Rightarrow>
                st1\<lparr>logSources := (logSources st1)[i := s'],
                    logEntryQueue :=
                      (if nextLogEntry = LFalse
                       then pq_push q' \<lparr>logEntry = nextLogEntry, logSourceIndex = i\<rparr>
                       else q'),
                    trace := trace st1 @ [Pop i (Returns nextLogEntry)]\<rparr>))"

text \<open>
  Lines 60 to 74. The loop need not end, so it carries fuel: one unit per evaluation
  of the loop test. A run that is out of fuel is returned as it stands, with status
  \<open>Running\<close>.
\<close>

fun sync_loop :: "nat \<Rightarrow> run_state \<Rightarrow> run_state" where
  "sync_loop 0 st = st"
| "sync_loop (Suc fuel) st =
     (case pq_pop (logEntryQueue st) of
        None \<Rightarrow> st\<lparr>trace := trace st @ [Done], status := Completed\<rparr>
      | Some (item, q') \<Rightarrow>
          (let st' = sync_body item q' st
           in if status st' = Running then sync_loop fuel st' else st'))"

definition sync_start :: "log_source list \<Rightarrow> run_state" where
  "sync_start srcs =
     \<lparr>logSources = srcs, logEntryQueue = [], trace = [], status = Running\<rparr>"

definition sync_merge :: "nat \<Rightarrow> log_source list \<Rightarrow> run_state" where
  "sync_merge fuel srcs =
     (case sync_reduce [0..<length srcs] [] (sync_start srcs) of
        (logEntries, st) \<Rightarrow>
          if status st = Running
          then sync_loop fuel (st\<lparr>logEntryQueue := pq_build logEntries\<rparr>)
          else st)"

section \<open>The pipelined engine (\<^verbatim>\<open>async-sorted-merge.js\<close>)\<close>

record async_state = run_state +
  logEntryPromises :: "nat \<rightharpoonup> outcome"

text \<open>
  \<^verbatim>\<open>logEntryPromises.set(i, logSources[i].popAsync())\<close>: the call advances source \<open>i\<close>
  and the promise replaces whatever the map held for \<open>i\<close>. When the call raises, the
  map is not touched and the error leaves the engine, which has no \<^verbatim>\<open>try\<close>: the run
  is over.
\<close>

definition start_pop :: "nat \<Rightarrow> async_state \<Rightarrow> async_state" where
  "start_pop i st =
     (if length (logSources st) \<le> i then st\<lparr>status := TypeError\<rparr>
      else
        (case popAsync (logSources st ! i) of
           (ThrowsAtCall, s') \<Rightarrow>
             st\<lparr>logSources := (logSources st)[i := s'],
                trace := trace st @ [PopAsync i, CallRaised i],
                status := Threw\<rparr>
         | (r, s') \<Rightarrow>
             st\<lparr>logSources := (logSources st)[i := s'],
                trace := trace st @ [PopAsync i],
                logEntryPromises := (logEntryPromises st)(i \<mapsto> r)\<rparr>))"

definition async_start :: "log_source list \<Rightarrow> async_state" where
  "async_start srcs =
     \<lparr>logSources = srcs, logEntryQueue = [], trace = [], status = Running,
      logEntryPromises = Map.empty\<rparr>"

text \<open>
  Lines 48 to 52: one \<^verbatim>\<open>popAsync\<close> per source, in index order, none awaited. A call
  that raises ends the \<^verbatim>\<open>reduce\<close> and the run.
\<close>

fun async_reduce_from :: "nat list \<Rightarrow> async_state \<Rightarrow> async_state" where
  "async_reduce_from [] st = st"
| "async_reduce_from (index # rest) st =
     (let st' = start_pop index st
      in if status st' = Running then async_reduce_from rest st' else st')"

definition async_reduce :: "log_source list \<Rightarrow> async_state" where
  "async_reduce srcs = async_reduce_from [0..<length srcs] (async_start srcs)"

text \<open>
  Lines 55 to 69. The \<^verbatim>\<open>for ... of\<close> loop walks the entries of the map in insertion
  order, which is index order; deleting the entry being visited or replacing its value
  does not disturb the walk, and a key that is absent is not visited.
\<close>

fun async_seed :: "nat list \<Rightarrow> ranked list \<Rightarrow> async_state \<Rightarrow> ranked list \<times> async_state" where
  "async_seed [] logEntries st = (logEntries, st)"
| "async_seed (index # rest) logEntries st =
     (case logEntryPromises st index of
        None \<Rightarrow> async_seed rest logEntries st
      | Some Throws \<Rightarrow>
          (logEntries, st\<lparr>trace := trace st @ [Await index Throws], status := Threw\<rparr>)
      | Some ThrowsAtCall \<Rightarrow>
          (logEntries,
           st\<lparr>trace := trace st @ [Await index ThrowsAtCall], status := Threw\<rparr>)
      | Some (Returns LFalse) \<Rightarrow>
          async_seed rest logEntries
            (st\<lparr>trace := trace st @ [Await index (Returns LFalse)],
               logEntryPromises := (logEntryPromises st)(index := None)\<rparr>)
      | Some (Returns (LEntry e)) \<Rightarrow>
          (let st' = start_pop index
                       (st\<lparr>trace := trace st @ [Await index (Returns (LEntry e))]\<rparr>)
           in if status st' = Running
              then async_seed rest
                     (logEntries @ [\<lparr>logEntry = LEntry e, logSourceIndex = index\<rparr>]) st'
              else (logEntries, st')))"

text \<open>
  Lines 79 to 93, one pass through the body of the \<^verbatim>\<open>while\<close> loop. Were the map to
  hold no promise for the index, \<^verbatim>\<open>await undefined\<close> would go on with a value that is
  no entry; the model stops there with \<open>TypeError\<close>, and lemma \<open>async_status\<close> below
  shows that no run gets there. Nor does the map ever hold \<open>ThrowsAtCall\<close>, since a call
  that raises stores nothing (lemma \<open>async_awaits_promises_made\<close> below); the case is
  there because the type has it.
\<close>

definition async_body :: "ranked \<Rightarrow> ranked list \<Rightarrow> async_state \<Rightarrow> async_state" where
  "async_body item q' st =
     (let i = logSourceIndex item;
          st1 = st\<lparr>logEntryQueue := q', trace := trace st @ [Print (logEntry item)]\<rparr>
      in case logEntryPromises st1 i of
           None \<Rightarrow> st1\<lparr>status := TypeError\<rparr>
         | Some Throws \<Rightarrow> st1\<lparr>trace := trace st1 @ [Await i Throws], status := Threw\<rparr>
         | Some ThrowsAtCall \<Rightarrow>
             st1\<lparr>trace := trace st1 @ [Await i ThrowsAtCall], status := Threw\<rparr>
         | Some (Returns LFalse) \<Rightarrow>
             st1\<lparr>trace := trace st1 @ [Await i (Returns LFalse)],
                 logEntryPromises := (logEntryPromises st1)(i := None)\<rparr>
         | Some (Returns (LEntry e)) \<Rightarrow>
             start_pop i
               (st1\<lparr>logEntryQueue := pq_push q' \<lparr>logEntry = LEntry e, logSourceIndex = i\<rparr>,
                    trace := trace st1 @ [Await i (Returns (LEntry e))]\<rparr>))"

text \<open>
  The weight of a state: the items in the queue, the outcomes the sources have left,
  and the promises that hold an entry. Every pass through the loop body lowers it.
\<close>

fun holds_entry :: "outcome option \<Rightarrow> nat" where
  "holds_entry (Some (Returns (LEntry e))) = 1"
| "holds_entry _ = 0"

definition weight :: "async_state \<Rightarrow> nat" where
  "weight st =
     length (logEntryQueue st) +
     (\<Sum>i<length (logSources st).
        length (logSources st ! i) + holds_entry (logEntryPromises st i))"

text \<open>
  Lines 78 to 96: the \<^verbatim>\<open>while\<close> loop and the call of \<^verbatim>\<open>printer.done()\<close>. The
  closing \<^verbatim>\<open>console.log\<close> of either engine is left out.
\<close>

function async_loop :: "async_state \<Rightarrow> async_state" where
  "async_loop st =
     (case pq_pop (logEntryQueue st) of
        None \<Rightarrow> st\<lparr>trace := trace st @ [Done], status := Completed\<rparr>
      | Some (item, q') \<Rightarrow>
          (let st' = async_body item q' st
           in if status st' = Running then async_loop st' else st'))"
  by pat_completeness auto

definition async_merge :: "log_source list \<Rightarrow> async_state" where
  "async_merge srcs =
     (if status (async_reduce srcs) = Running
      then
        (case async_seed [0..<length srcs] [] (async_reduce srcs) of
           (logEntries, st) \<Rightarrow>
             if status st = Running
             then async_loop (st\<lparr>logEntryQueue := pq_build logEntries\<rparr>)
             else st)
      else async_reduce srcs)"

section \<open>Reading a run\<close>

text \<open>The values handed to \<^verbatim>\<open>printer.print\<close>, in order.\<close>

fun emitted :: "event list \<Rightarrow> log_value list" where
  "emitted [] = []"
| "emitted (Print v # tr) = v # emitted tr"
| "emitted (ev # tr) = emitted tr"

text \<open>
  The entries a source produces before its exhaustion: those its pulls return before
  the first pull that returns \<^verbatim>\<open>false\<close> or raises.
\<close>

fun produced :: "log_source \<Rightarrow> log_entry list" where
  "produced (Returns (LEntry e) # rest) = e # produced rest"
| "produced s = []"

text \<open>A source fails when one of its pulls raises before it is exhausted.\<close>

fun fails :: "log_source \<Rightarrow> bool" where
  "fails (Returns (LEntry e) # rest) = fails rest"
| "fails (Throws # rest) = True"
| "fails (ThrowsAtCall # rest) = True"
| "fails s = False"

text \<open>
  The fetches of source \<open>i\<close> in flight after a trace: the calls of \<^verbatim>\<open>popAsync\<close> on it
  less the awaits of its promises, and less the calls that raised and so left no
  promise to await.
\<close>

fun outstanding :: "nat \<Rightarrow> event list \<Rightarrow> int" where
  "outstanding i [] = 0"
| "outstanding i (PopAsync j # tr) = (if j = i then 1 else 0) + outstanding i tr"
| "outstanding i (Await j r # tr) = outstanding i tr - (if j = i then 1 else 0)"
| "outstanding i (CallRaised j # tr) = outstanding i tr - (if j = i then 1 else 0)"
| "outstanding i (ev # tr) = outstanding i tr"

text \<open>A pull that raised, or a promise that rejected.\<close>

fun raised :: "event \<Rightarrow> bool" where
  "raised (Pop i (Returns v)) = False"
| "raised (Pop i r) = True"
| "raised (Await i (Returns v)) = False"
| "raised (Await i r) = True"
| "raised (CallRaised i) = True"
| "raised ev = False"

section \<open>The queue and the termination of the pipelined loop\<close>

lemma pq_min_mem: "pq_min best ys \<in> set (best # ys)"
  by (induction ys arbitrary: best) auto

lemma pq_pop_remove1:
  assumes "pq_pop q = Some (m, q')"
  shows "m \<in> set q" and "q' = remove1 m q"
proof -
  from assms obtain x xs where q: "q = x # xs" by (cases q) auto
  from assms q have m: "m = pq_min x xs" and q': "q' = remove1 m (x # xs)"
    by (auto simp add: Let_def simp del: remove1.simps)
  from m q show "m \<in> set q" using pq_min_mem [of x xs] by simp
  from q' q show "q' = remove1 m q" by simp
qed

lemma pq_pop_mset: "pq_pop q = Some (m, q') \<Longrightarrow> mset q = add_mset m (mset q')"
  using pq_pop_remove1 [of q m q'] by simp

lemma pq_pop_length: "pq_pop q = Some (m, q') \<Longrightarrow> length q = Suc (length q')"
  by (drule pq_pop_mset, drule arg_cong [where f = size]) simp

lemma sum_one_less:
  fixes f g :: "nat \<Rightarrow> nat"
  assumes "i < n" and "g i < f i" and "\<And>j. j \<noteq> i \<Longrightarrow> g j = f j"
  shows "sum g {..<n} < sum f {..<n}"
proof (rule sum_strict_mono_ex1)
  show "finite {..<n}" by simp
  show "\<forall>j\<in>{..<n}. g j \<le> f j"
    using assms(2,3) by (metis le_eq_less_or_eq)
  show "\<exists>j\<in>{..<n}. g j < f j" using assms(1,2) by auto
qed

lemma sum_same:
  fixes f g :: "nat \<Rightarrow> nat"
  assumes "\<And>j. j < n \<Longrightarrow> g j = f j"
  shows "sum g {..<n} = sum f {..<n}"
  using assms by (intro sum.cong) auto

lemma weight_start_pop:
  assumes "status (start_pop i st) = Running" "holds_entry (logEntryPromises st i) = 1"
  shows "weight (start_pop i st) < weight st"
proof -
  from assms(1) have i: "i < length (logSources st)"
    by (auto simp: start_pop_def split: if_splits)
  obtain r s' where p: "pop (logSources st ! i) = (r, s')" by (cases "pop (logSources st ! i)")
  from assms(1) i p have nr: "r \<noteq> ThrowsAtCall"
    by (auto simp: start_pop_def popAsync_def)
  have st': "start_pop i st = st\<lparr>logSources := (logSources st)[i := s'],
                trace := trace st @ [PopAsync i],
                logEntryPromises := (logEntryPromises st)(i \<mapsto> r)\<rparr>"
    using i p nr by (cases r) (simp_all add: start_pop_def popAsync_def)
  have step: "length s' + holds_entry (Some r) < length (logSources st ! i) + 1"
  proof (cases "logSources st ! i")
    case Nil
    with p show ?thesis by auto
  next
    case (Cons a rest)
    have "holds_entry (Some r) \<le> 1" by (cases "Some r" rule: holds_entry.cases) auto
    with p Cons show ?thesis by auto
  qed
  have "(\<Sum>j<length (logSources st). length ((logSources st)[i := s'] ! j) + holds_entry (((logEntryPromises st)(i \<mapsto> r)) j))
      < (\<Sum>j<length (logSources st). length (logSources st ! j) + holds_entry (logEntryPromises st j))"
    by (rule sum_one_less [OF i]) (use i step assms(2) in auto)
  then show ?thesis by (simp add: st' weight_def)
qed

lemma weight_async_body:
  assumes "pq_pop (logEntryQueue st) = Some (item, q')"
    and "status (async_body item q' st) = Running"
  shows "weight (async_body item q' st) < weight st"
proof -
  let ?i = "logSourceIndex item"
  from assms(1) have len: "length (logEntryQueue st) = Suc (length q')"
    by (rule pq_pop_length)
  show ?thesis
  proof (cases "logEntryPromises st ?i")
    case None
    with assms(2) show ?thesis
      by (simp add: async_body_def Let_def)
  next
    case (Some r)
    show ?thesis
    proof (cases r)
      case Throws
      with Some assms(2) show ?thesis by (simp add: async_body_def Let_def)
    next
      case ThrowsAtCall
      with Some assms(2) show ?thesis by (simp add: async_body_def Let_def)
    next
      case (Returns v)
      show ?thesis
      proof (cases v)
        case LFalse
        have "(\<Sum>j<length (logSources st). length (logSources st ! j) + holds_entry (((logEntryPromises st)(?i := None)) j))
           = (\<Sum>j<length (logSources st). length (logSources st ! j) + holds_entry (logEntryPromises st j))"
          by (rule sum_same) (use Some Returns LFalse in auto)
        with Some Returns LFalse len show ?thesis
          by (simp add: async_body_def Let_def weight_def)
      next
        case (LEntry e)
        let ?st2 = "st\<lparr>logEntryQueue := pq_push q' \<lparr>logEntry = LEntry e, logSourceIndex = ?i\<rparr>,
                    trace := trace st @ [Print (logEntry item), Await ?i (Returns (LEntry e))]\<rparr>"
        have body: "async_body item q' st = start_pop ?i ?st2"
          using Some Returns LEntry by (simp add: async_body_def Let_def)
        have "weight (start_pop ?i ?st2) < weight ?st2"
          using assms(2) Some Returns LEntry unfolding body
          by (intro weight_start_pop) simp_all
        also have "weight ?st2 = weight st"
          using len by (simp add: weight_def pq_push_def)
        finally show ?thesis by (simp add: body)
      qed
    qed
  qed
qed

termination async_loop
  by (relation "measure weight") (auto intro: weight_async_body)

section \<open>The comparator\<close>

text \<open>
  Rounding changes neither the sign of a difference nor whether it is zero, and it
  leaves a difference below \<open>2\<^sup>5\<^sup>3\<close> as it is. The largest difference of two
  timestamps that is rounded away from its value is the one between the two ends of
  the range of \<^verbatim>\<open>Date\<close>, less one millisecond.
\<close>

lemma excess_le: "0 < m \<Longrightarrow> 2 ^ excess m \<le> m"
proof (induction m rule: excess.induct)
  case (1 m)
  show ?case
  proof (cases "m < 2 ^ 53")
    case True
    with "1.prems" show ?thesis by (subst excess.simps) simp
  next
    case False
    then have "0 < m div 2" by simp
    from "1.IH" [OF False this] have "2 * 2 ^ excess (m div 2) \<le> 2 * (m div 2)" by simp
    also have "\<dots> \<le> m" by simp
    finally show ?thesis using False by (subst excess.simps) simp
  qed
qed

lemma round_even_pos:
  assumes "2 ^ k \<le> m"
  shows "0 < round_even k m"
proof -
  have p: "(0::int) < 2 ^ k" by simp
  with assms have "0 < m div 2 ^ k" by (simp add: pos_imp_zdiv_pos_iff)
  with p show ?thesis by (simp add: round_even_def Let_def)
qed

lemma to_double_sign:
  "(to_double d < 0) = (d < 0)" and "(to_double d = 0) = (d = 0)"
proof -
  have pos: "0 < round_even (excess \<bar>d\<bar>) \<bar>d\<bar>" if "d \<noteq> 0"
    using round_even_pos [OF excess_le, of "\<bar>d\<bar>"] that by simp
  show "(to_double d < 0) = (d < 0)"
    using pos by (cases "d = 0") (auto simp: to_double_def sgn_if mult_less_0_iff)
  show "(to_double d = 0) = (d = 0)"
    using pos by (cases "d = 0") (auto simp: to_double_def sgn_if)
qed

lemma to_double_0: "to_double 0 = 0"
  by (simp add: to_double_def)

lemma excess_small: "m < 2 ^ 53 \<Longrightarrow> excess m = 0"
  by (subst excess.simps) simp

lemma to_double_exact: "\<bar>d\<bar> < 2 ^ 53 \<Longrightarrow> to_double d = d"
proof -
  assume "\<bar>d\<bar> < 2 ^ 53"
  then have "excess \<bar>d\<bar> = 0" by (rule excess_small)
  then show ?thesis by (simp add: to_double_def round_even_def sgn_if)
qed

lemma to_double_rounds: "to_double 17279999999999999 = 17280000000000000"
  by code_simp

section \<open>The blocking engine keeps the wrong pull results\<close>

lemma emitted_append: "emitted (a @ b) = emitted a @ emitted b"
  by (induction a rule: emitted.induct) auto

lemmas sync_unfold =
  sync_merge_def sync_start_def sync_body_def pq_build_def pq_push_def Let_def

lemmas async_unfold =
  async_merge_def async_reduce_def async_start_def start_pop_def popAsync_def
  pq_build_def async_body_def pq_push_def Let_def

text \<open>
  A single source that is drained at its first pull: the marker is queued, printed,
  the source is pulled again, and the marker is queued again, for as long as there is
  fuel.
\<close>

lemma sync_loop_drained:
  "sync_loop fuel
     \<lparr>logSources = [[]], logEntryQueue = [\<lparr>logEntry = LFalse, logSourceIndex = 0\<rparr>],
      trace = t, status = Running\<rparr>
   = \<lparr>logSources = [[]], logEntryQueue = [\<lparr>logEntry = LFalse, logSourceIndex = 0\<rparr>],
      trace = t @ concat (replicate fuel [Print LFalse, Pop 0 (Returns LFalse)]),
      status = Running\<rparr>"
proof (induction fuel arbitrary: t)
  case 0
  show ?case by simp
next
  case (Suc fuel)
  show ?case by (simp add: sync_unfold Suc)
qed

lemma sync_merge_drained:
  "sync_merge fuel [[]]
   = \<lparr>logSources = [[]], logEntryQueue = [\<lparr>logEntry = LFalse, logSourceIndex = 0\<rparr>],
      trace = Pop 0 (Returns LFalse) #
              concat (replicate fuel [Print LFalse, Pop 0 (Returns LFalse)]),
      status = Running\<rparr>"
  by (simp add: sync_unfold sync_loop_drained)

text \<open>
  C1, at the failing input: one source that yields a single entry \<open>e\<close> and is then
  drained. The blocking engine pulls the entry, does not queue it because it is not
  \<^verbatim>\<open>false\<close>, finds the queue empty and signals completion: the entry the source
  produced is never emitted.
\<close>

theorem sync_drops_entry:
  "status (sync_merge (Suc fuel) [[Returns (LEntry e)]]) = Completed \<and>
   trace (sync_merge (Suc fuel) [[Returns (LEntry e)]]) = [Pop 0 (Returns (LEntry e)), Done] \<and>
   emitted (trace (sync_merge (Suc fuel) [[Returns (LEntry e)]])) = [] \<and>
   produced [Returns (LEntry e)] = [e]"
  by (simp add: sync_unfold)

text \<open>
  C3, at the failing input: on the same single source with the single entry \<open>e\<close> the
  blocking engine emits nothing and the pipelined engine emits \<open>e\<close>.
\<close>

theorem engines_differ:
  "emitted (trace (sync_merge (Suc fuel) [[Returns (LEntry e)]])) = [] \<and>
   emitted (trace (async_merge [[Returns (LEntry e)]])) = [LEntry e]"
  by (simp add: sync_unfold async_unfold)

text \<open>
  C4, at the failing input: one source that is drained at its first pull. Whatever the
  fuel, the blocking engine is still in its loop and has not called
  \<^verbatim>\<open>printer.done()\<close>.
\<close>

theorem sync_never_completes_on_drained_source:
  "status (sync_merge fuel [[]]) = Running \<and> Done \<notin> set (trace (sync_merge fuel [[]]))"
  by (simp add: sync_merge_drained)

text \<open>
  C5, at the failing input: one source that is drained at its first pull. Once the
  first pull has returned the exhaustion marker, the blocking engine keeps the source
  in the queue, and it pulls the same source again in every pass through its loop.
\<close>

theorem sync_pulls_drained_source_again:
  "logEntryQueue (sync_merge fuel [[]]) = [\<lparr>logEntry = LFalse, logSourceIndex = 0\<rparr>] \<and>
   trace (sync_merge fuel [[]]) =
     Pop 0 (Returns LFalse) # concat (replicate fuel [Print LFalse, Pop 0 (Returns LFalse)])"
  by (simp add: sync_merge_drained)

subsection \<open>Only the exhaustion marker is ever queued\<close>

lemma sync_reduce_false:
  "sync_reduce is es st = (es', st') \<Longrightarrow> \<forall>r\<in>set es. logEntry r = LFalse \<Longrightarrow>
   (\<forall>r\<in>set es'. logEntry r = LFalse) \<and> logEntryQueue st' = logEntryQueue st \<and>
   emitted (trace st') = emitted (trace st)"
proof (induction "is" arbitrary: es st)
  case Nil
  then show ?case by simp
next
  case (Cons index rest)
  obtain r s' where p: "pop (logSources st ! index) = (r, s')"
    by (cases "pop (logSources st ! index)")
  show ?case
  proof (cases r)
    case Throws
    with Cons.prems(1) p have "es' = es"
      and "st' = st\<lparr>logSources := (logSources st)[index := s'],
                     trace := trace st @ [Pop index Throws], status := Threw\<rparr>"
      by simp_all
    with Cons.prems(2) show ?thesis by (simp add: emitted_append)
  next
    case ThrowsAtCall
    with Cons.prems(1) p have "es' = es"
      and "st' = st\<lparr>logSources := (logSources st)[index := s'],
                     trace := trace st @ [Pop index ThrowsAtCall], status := Threw\<rparr>"
      by simp_all
    with Cons.prems(2) show ?thesis by (simp add: emitted_append)
  next
    case (Returns v)
    let ?es = "if v = LFalse then es @ [\<lparr>logEntry = v, logSourceIndex = index\<rparr>] else es"
    let ?st = "st\<lparr>logSources := (logSources st)[index := s'],
                  trace := trace st @ [Pop index (Returns v)]\<rparr>"
    from Cons.prems(1) p Returns have "sync_reduce rest ?es ?st = (es', st')"
      by simp
    moreover have "\<forall>r\<in>set ?es. logEntry r = LFalse"
      using Cons.prems(2) by simp
    ultimately have "(\<forall>r\<in>set es'. logEntry r = LFalse) \<and>
        logEntryQueue st' = logEntryQueue ?st \<and> emitted (trace st') = emitted (trace ?st)"
      by (rule Cons.IH)
    then show ?thesis by (simp add: emitted_append)
  qed
qed

definition all_false :: "run_state \<Rightarrow> bool" where
  "all_false st =
     ((\<forall>r\<in>set (logEntryQueue st). logEntry r = LFalse) \<and>
      (\<forall>v\<in>set (emitted (trace st)). v = LFalse))"

lemma sync_body_false:
  assumes "all_false st" and "pq_pop (logEntryQueue st) = Some (item, q')"
  shows "all_false (sync_body item q' st)"
proof -
  from pq_pop_remove1 [OF assms(2)]
  have m: "item \<in> set (logEntryQueue st)" and q': "set q' \<subseteq> set (logEntryQueue st)"
    using set_remove1_subset [of item "logEntryQueue st"] by auto
  from assms(1) m have "logEntry item = LFalse"
    by (simp add: all_false_def)
  with assms(1) q' show ?thesis
    by (auto simp: all_false_def sync_body_def Let_def emitted_append pq_push_def
             split: prod.splits outcome.splits)
qed

lemma sync_loop_false: "all_false st \<Longrightarrow> all_false (sync_loop fuel st)"
proof (induction fuel arbitrary: st)
  case 0
  then show ?case by simp
next
  case (Suc fuel)
  show ?case
  proof (cases "pq_pop (logEntryQueue st)")
    case None
    with Suc.prems show ?thesis by (simp add: all_false_def emitted_append)
  next
    case (Some p)
    obtain item q' where p: "p = (item, q')" by (cases p)
    from sync_body_false [OF Suc.prems Some [unfolded p]] Suc.IH Some p
    show ?thesis by (simp add: Let_def)
  qed
qed

text \<open>
  C9. In the blocking engine, whatever the sources and however long the run has gone
  on, every item in the priority queue carries \<^verbatim>\<open>false\<close> as its \<open>logEntry\<close>, and
  every value handed to \<^verbatim>\<open>printer.print\<close> is \<^verbatim>\<open>false\<close>: a pull that returns an
  entry, at seeding or in the loop, puts nothing in the queue, and no entry is ever
  printed.
\<close>

theorem sync_queue_only_false:
  "(\<forall>r\<in>set (logEntryQueue (sync_merge fuel srcs)). logEntry r = LFalse) \<and>
   (\<forall>v\<in>set (emitted (trace (sync_merge fuel srcs))). v = LFalse)"
proof -
  obtain es st where r: "sync_reduce [0..<length srcs] [] (sync_start srcs) = (es, st)"
    by (cases "sync_reduce [0..<length srcs] [] (sync_start srcs)")
  from sync_reduce_false [OF r] have es: "\<forall>r\<in>set es. logEntry r = LFalse"
    and q: "logEntryQueue st = []" and em: "emitted (trace st) = []"
    by (simp_all add: sync_start_def)
  have "all_false (sync_merge fuel srcs)"
  proof (cases "status st = Running")
    case True
    have "all_false (st\<lparr>logEntryQueue := pq_build es\<rparr>)"
      using es em by (simp add: all_false_def pq_build_def)
    from sync_loop_false [OF this] r True show ?thesis
      by (simp add: sync_merge_def)
  next
    case False
    with r q em show ?thesis by (simp add: sync_merge_def all_false_def)
  qed
  then show ?thesis by (simp add: all_false_def)
qed

theorem sync_queue_only_false_witness:
  "logEntryQueue (sync_merge 2 [[], [Returns (LEntry \<lparr>date = 1, msg = ''m''\<rparr>)]])
     = [\<lparr>logEntry = LFalse, logSourceIndex = 0\<rparr>] \<and>
   emitted (trace (sync_merge 2 [[], [Returns (LEntry \<lparr>date = 1, msg = ''m''\<rparr>)]]))
     = [LFalse, LFalse] \<and>
   logEntry (hd (logEntryQueue
     (sync_merge 2 [[], [Returns (LEntry \<lparr>date = 1, msg = ''m''\<rparr>)]]))) = LFalse"
proof -
  have q: "logEntryQueue (sync_merge 2 [[], [Returns (LEntry \<lparr>date = 1, msg = ''m''\<rparr>)]])
     = [\<lparr>logEntry = LFalse, logSourceIndex = 0\<rparr>]"
    by code_simp
  have p: "emitted (trace (sync_merge 2 [[], [Returns (LEntry \<lparr>date = 1, msg = ''m''\<rparr>)]]))
     = [LFalse, LFalse]"
    by code_simp
  from q p sync_queue_only_false [of 2 "[[], [Returns (LEntry \<lparr>date = 1, msg = ''m''\<rparr>)]]"]
  show ?thesis by simp
qed

section \<open>An invariant rule for the pipelined engine\<close>

text \<open>
  The seeding loop and the main loop are made of the same three moves: an item is taken
  from the queue and printed; the promise of an index is awaited and delivers
  \<^verbatim>\<open>false\<close>; the promise of an index is awaited, delivers an entry, and the next
  pull of that index is started. An invariant speaks of the indices \<open>U\<close> whose
  promise is due to be awaited, the ranked entries \<open>q\<close> gathered so far, the sources,
  the map of promises and the trace.
\<close>

lemma start_pop_eq:
  assumes "i < length (logSources st)" and "pop (logSources st ! i) = (r, s')"
    and "r \<noteq> ThrowsAtCall"
  shows "start_pop i st =
           st\<lparr>logSources := (logSources st)[i := s'],
              trace := trace st @ [PopAsync i],
              logEntryPromises := (logEntryPromises st)(i \<mapsto> r)\<rparr>"
  using assms by (cases r) (simp_all add: start_pop_def popAsync_def)

lemma start_pop_raised:
  assumes "i < length (logSources st)" and "pop (logSources st ! i) = (ThrowsAtCall, s')"
  shows "start_pop i st =
           st\<lparr>logSources := (logSources st)[i := s'],
              trace := trace st @ [PopAsync i, CallRaised i],
              status := Threw\<rparr>"
  using assms by (simp add: start_pop_def popAsync_def)

text \<open>
  The \<^verbatim>\<open>reduce\<close>, call by call. A source is \<open>willing\<close> when its first call does not
  raise.
\<close>

definition willing :: "log_source \<Rightarrow> bool" where
  "willing s \<longleftrightarrow> fst (pop s) \<noteq> ThrowsAtCall"

lemma async_reduce_from_append:
  "status st = Running \<Longrightarrow>
   async_reduce_from (js @ ks) st =
     (if status (async_reduce_from js st) = Running
      then async_reduce_from ks (async_reduce_from js st)
      else async_reduce_from js st)"
  by (induction js arbitrary: st) (simp_all add: Let_def)

lemma async_reduce_from_snoc:
  assumes "status st = Running" and "status (async_reduce_from js st) = Running"
  shows "async_reduce_from (js @ [k]) st = start_pop k (async_reduce_from js st)"
  using assms by (simp add: async_reduce_from_append Let_def)

text \<open>The state after the first \<open>k\<close> calls of the \<^verbatim>\<open>reduce\<close>, none of which has raised.\<close>

lemma async_reduce_upto:
  "k \<le> length srcs \<Longrightarrow> \<forall>i<k. willing (srcs ! i) \<Longrightarrow>
   async_reduce_from [0..<k] (async_start srcs) =
     \<lparr>logSources = map (\<lambda>s. snd (pop s)) (take k srcs) @ drop k srcs,
      logEntryQueue = [], trace = map PopAsync [0..<k], status = Running,
      logEntryPromises = (\<lambda>i. if i < k then Some (fst (pop (srcs ! i))) else None)\<rparr>"
proof (induction k)
  case 0
  show ?case by (simp add: async_start_def)
next
  case (Suc k)
  then have k: "k < length srcs" and w: "willing (srcs ! k)" by simp_all
  let ?st = "\<lparr>logSources = map (\<lambda>s. snd (pop s)) (take k srcs) @ drop k srcs,
      logEntryQueue = [], trace = map PopAsync [0..<k], status = Running,
      logEntryPromises = (\<lambda>i. if i < k then Some (fst (pop (srcs ! i))) else None)\<rparr>"
  from Suc have IH: "async_reduce_from [0..<k] (async_start srcs) = ?st" by simp
  have nth: "logSources ?st ! k = srcs ! k"
    using k by (simp add: nth_append)
  have upd: "(map (\<lambda>s. snd (pop s)) (take k srcs) @ drop k srcs)[k := snd (pop (srcs ! k))]
       = map (\<lambda>s. snd (pop s)) (take (Suc k) srcs) @ drop (Suc k) srcs"
    using k by (simp add: take_Suc_conv_app_nth list_update_append Cons_nth_drop_Suc [symmetric])
  have "async_reduce_from [0..<Suc k] (async_start srcs)
      = async_reduce_from ([0..<k] @ [k]) (async_start srcs)" by simp
  also have "\<dots> = start_pop k ?st"
    by (subst async_reduce_from_snoc) (simp_all add: IH, simp add: async_start_def)
  also have "start_pop k ?st =
       ?st\<lparr>logSources := (logSources ?st)[k := snd (pop (srcs ! k))],
           trace := trace ?st @ [PopAsync k],
           logEntryPromises := (logEntryPromises ?st)(k \<mapsto> fst (pop (srcs ! k)))\<rparr>"
    by (rule start_pop_eq) (use k nth w in \<open>simp_all add: willing_def\<close>)
  also have "\<dots> = \<lparr>logSources = map (\<lambda>s. snd (pop s)) (take (Suc k) srcs) @ drop (Suc k) srcs,
      logEntryQueue = [], trace = map PopAsync [0..<Suc k], status = Running,
      logEntryPromises = (\<lambda>i. if i < Suc k then Some (fst (pop (srcs ! i))) else None)\<rparr>"
    using upd by (auto simp: fun_eq_iff less_Suc_eq)
  finally show ?case .
qed

lemma async_reduce_eq:
  assumes "\<forall>i<length srcs. willing (srcs ! i)"
  shows "async_reduce srcs =
     \<lparr>logSources = map (\<lambda>s. snd (pop s)) srcs,
      logEntryQueue = [], trace = map PopAsync [0..<length srcs], status = Running,
      logEntryPromises = (\<lambda>i. if i < length srcs then Some (fst (pop (srcs ! i))) else None)\<rparr>"
  using async_reduce_upto [of "length srcs" srcs] assms by (simp add: async_reduce_def)

text \<open>
  When the call on source \<open>k\<close> is the first to raise, the \<^verbatim>\<open>reduce\<close> ends there, and
  so does the run: nothing has been awaited and nothing printed.
\<close>

definition refused :: "log_source list \<Rightarrow> async_state \<Rightarrow> bool" where
  "refused srcs r \<longleftrightarrow>
     status r = Threw \<and>
     (\<exists>k. k < length srcs \<and> \<not> willing (srcs ! k) \<and>
        trace r = map PopAsync [0..<Suc k] @ [CallRaised k])"

lemma async_reduce_raised:
  assumes k: "k < length srcs" and before: "\<forall>i<k. willing (srcs ! i)"
    and raises: "\<not> willing (srcs ! k)"
  shows "status (async_reduce srcs) = Threw"
    and "trace (async_reduce srcs) = map PopAsync [0..<Suc k] @ [CallRaised k]"
proof -
  let ?st = "\<lparr>logSources = map (\<lambda>s. snd (pop s)) (take k srcs) @ drop k srcs,
      logEntryQueue = [], trace = map PopAsync [0..<k], status = Running,
      logEntryPromises = (\<lambda>i. if i < k then Some (fst (pop (srcs ! i))) else None)\<rparr>"
  let ?end = "?st\<lparr>logSources := (logSources ?st)[k := snd (pop (srcs ! k))],
                  trace := trace ?st @ [PopAsync k, CallRaised k], status := Threw\<rparr>"
  have upto: "async_reduce_from [0..<k] (async_start srcs) = ?st"
    by (rule async_reduce_upto) (use k before in simp_all)
  have nth: "logSources ?st ! k = srcs ! k"
    using k by (simp add: nth_append)
  have run: "status (async_start srcs) = Running" by (simp add: async_start_def)
  have "start_pop k ?st = ?end"
    by (rule start_pop_raised) (use k nth raises in \<open>simp_all add: willing_def prod_eq_iff\<close>)
  moreover have "async_reduce_from ([0..<k] @ [k]) (async_start srcs) = start_pop k ?st"
    by (subst async_reduce_from_snoc) (simp_all add: upto run)
  ultimately have first: "async_reduce_from ([0..<k] @ [k]) (async_start srcs) = ?end"
    by simp
  have "[0..<length srcs] = [0..<Suc k] @ [Suc k..<length srcs]"
    using k by (metis Suc_leI le0 upt_add_eq_append le_add_diff_inverse)
  then have "async_reduce srcs
      = async_reduce_from (([0..<k] @ [k]) @ [Suc k..<length srcs]) (async_start srcs)"
    by (simp add: async_reduce_def)
  also have "\<dots> = ?end"
    by (subst async_reduce_from_append [OF run]) (simp add: first)
  finally have r: "async_reduce srcs = ?end" .
  show "status (async_reduce srcs) = Threw" by (simp add: r)
  show "trace (async_reduce srcs) = map PopAsync [0..<Suc k] @ [CallRaised k]"
    by (simp add: r)
qed

lemma async_reduce_cases:
  "(\<forall>i<length srcs. willing (srcs ! i)) \<or> refused srcs (async_reduce srcs)"
proof (cases "\<forall>i<length srcs. willing (srcs ! i)")
  case True
  then show ?thesis ..
next
  case False
  define k where "k = (LEAST i. i < length srcs \<and> \<not> willing (srcs ! i))"
  from False have ex: "\<exists>i. i < length srcs \<and> \<not> willing (srcs ! i)" by blast
  from LeastI_ex [OF ex] have k: "k < length srcs" and r: "\<not> willing (srcs ! k)"
    unfolding k_def by blast+
  have before: "\<forall>i<k. willing (srcs ! i)"
  proof (intro allI impI)
    fix i assume "i < k"
    from not_less_Least [OF this [unfolded k_def]] \<open>i < k\<close> k
    show "willing (srcs ! i)" by auto
  qed
  from async_reduce_raised [OF k before r] k r have "refused srcs (async_reduce srcs)"
    unfolding refused_def by blast
  then show ?thesis ..
qed

text \<open>
  \<open>steps Q\<close>: the invariant \<open>Q\<close> survives each of the three moves, and it keeps the
  indices it speaks of inside the map of promises and the map's keys inside the list
  of sources, so that the engine never awaits a promise that is not there.
\<close>

type_synonym invariant =
  "nat set \<Rightarrow> ranked list \<Rightarrow> log_source list \<Rightarrow> (nat \<rightharpoonup> outcome) \<Rightarrow> event list \<Rightarrow> bool"

definition steps :: "invariant \<Rightarrow> bool" where
  "steps Q \<longleftrightarrow>
     (\<forall>U q ss ps tr. Q U q ss ps tr \<longrightarrow>
        U \<subseteq> dom ps \<and> logSourceIndex ` set q \<subseteq> dom ps \<and> dom ps \<subseteq> {..<length ss}) \<and>
     (\<forall>q ss ps tr item q'. Q {} q ss ps tr \<longrightarrow> pq_pop q = Some (item, q') \<longrightarrow>
        Q {logSourceIndex item} q' ss ps (tr @ [Print (logEntry item)])) \<and>
     (\<forall>U q ss ps tr i. Q U q ss ps tr \<longrightarrow> i \<in> U \<longrightarrow> ps i = Some (Returns LFalse) \<longrightarrow>
        Q (U - {i}) q ss (ps(i := None)) (tr @ [Await i (Returns LFalse)])) \<and>
     (\<forall>U q ss ps tr i e r s'. Q U q ss ps tr \<longrightarrow> i \<in> U \<longrightarrow>
        ps i = Some (Returns (LEntry e)) \<longrightarrow> pop (ss ! i) = (r, s') \<longrightarrow>
        r \<noteq> ThrowsAtCall \<longrightarrow>
        Q (U - {i}) (q @ [\<lparr>logEntry = LEntry e, logSourceIndex = i\<rparr>]) (ss[i := s'])
          (ps(i \<mapsto> r)) (tr @ [Await i (Returns (LEntry e)), PopAsync i]))"

text \<open>
  How a run that got past the \<^verbatim>\<open>reduce\<close> can end: by an awaited promise that does not
  deliver, with the invariant holding just before that await; by a call of
  \<^verbatim>\<open>popAsync\<close> that raises, right after an await that delivered an entry, with the
  invariant holding just before that await; or by the call of \<^verbatim>\<open>printer.done()\<close>,
  with the invariant holding just before the call, for an empty queue and nothing left
  to await.
\<close>

definition rejected :: "invariant \<Rightarrow> async_state \<Rightarrow> bool" where
  "rejected Q r \<longleftrightarrow>
     (\<exists>U q tr i x. i \<in> U \<and> logEntryPromises r i = Some x \<and> (\<forall>v. x \<noteq> Returns v) \<and>
        trace r = tr @ [Await i x] \<and>
        Q U q (logSources r) (logEntryPromises r) tr)"

definition call_raised :: "invariant \<Rightarrow> async_state \<Rightarrow> bool" where
  "call_raised Q r \<longleftrightarrow>
     (\<exists>U q ss tr i e s'. i \<in> U \<and> logEntryPromises r i = Some (Returns (LEntry e)) \<and>
        pop (ss ! i) = (ThrowsAtCall, s') \<and>
        trace r = tr @ [Await i (Returns (LEntry e)), PopAsync i, CallRaised i] \<and>
        Q U q ss (logEntryPromises r) tr)"

definition aborted :: "invariant \<Rightarrow> async_state \<Rightarrow> bool" where
  "aborted Q r \<longleftrightarrow> status r = Threw \<and> (rejected Q r \<or> call_raised Q r)"

definition completed :: "invariant \<Rightarrow> async_state \<Rightarrow> bool" where
  "completed Q r \<longleftrightarrow>
     status r = Completed \<and> logEntryQueue r = [] \<and>
     (\<exists>tr. trace r = tr @ [Done] \<and> Q {} [] (logSources r) (logEntryPromises r) tr)"

lemma steps_shape:
  assumes "steps Q" and "Q U q ss ps tr"
  shows "U \<subseteq> dom ps" and "logSourceIndex ` set q \<subseteq> dom ps" and "dom ps \<subseteq> {..<length ss}"
proof -
  from assms(1) have "\<forall>U q ss ps tr. Q U q ss ps tr \<longrightarrow>
        U \<subseteq> dom ps \<and> logSourceIndex ` set q \<subseteq> dom ps \<and> dom ps \<subseteq> {..<length ss}"
    unfolding steps_def by (elim conjE)
  from this [rule_format, OF assms(2)]
  show "U \<subseteq> dom ps" and "logSourceIndex ` set q \<subseteq> dom ps" and "dom ps \<subseteq> {..<length ss}"
    by blast+
qed

lemma steps_print:
  assumes "steps Q" and "Q {} q ss ps tr" and "pq_pop q = Some (item, q')"
  shows "Q {logSourceIndex item} q' ss ps (tr @ [Print (logEntry item)])"
proof -
  from assms(1) have "\<forall>q ss ps tr item q'. Q {} q ss ps tr \<longrightarrow> pq_pop q = Some (item, q') \<longrightarrow>
        Q {logSourceIndex item} q' ss ps (tr @ [Print (logEntry item)])"
    unfolding steps_def by (elim conjE)
  from this [rule_format, OF assms(2,3)] show ?thesis .
qed

lemma steps_false:
  assumes "steps Q" and "Q U q ss ps tr" and "i \<in> U" and "ps i = Some (Returns LFalse)"
  shows "Q (U - {i}) q ss (ps(i := None)) (tr @ [Await i (Returns LFalse)])"
proof -
  from assms(1) have "\<forall>U q ss ps tr i. Q U q ss ps tr \<longrightarrow> i \<in> U \<longrightarrow>
        ps i = Some (Returns LFalse) \<longrightarrow>
        Q (U - {i}) q ss (ps(i := None)) (tr @ [Await i (Returns LFalse)])"
    unfolding steps_def by (elim conjE)
  from this [rule_format, OF assms(2,3,4)] show ?thesis .
qed

lemma steps_entry:
  assumes "steps Q" and "Q U q ss ps tr" and "i \<in> U" and "ps i = Some (Returns (LEntry e))"
    and "pop (ss ! i) = (r, s')" and "r \<noteq> ThrowsAtCall"
  shows "Q (U - {i}) (q @ [\<lparr>logEntry = LEntry e, logSourceIndex = i\<rparr>]) (ss[i := s'])
          (ps(i \<mapsto> r)) (tr @ [Await i (Returns (LEntry e)), PopAsync i])"
proof -
  from assms(1) have "\<forall>U q ss ps tr i e r s'. Q U q ss ps tr \<longrightarrow> i \<in> U \<longrightarrow>
        ps i = Some (Returns (LEntry e)) \<longrightarrow> pop (ss ! i) = (r, s') \<longrightarrow>
        r \<noteq> ThrowsAtCall \<longrightarrow>
        Q (U - {i}) (q @ [\<lparr>logEntry = LEntry e, logSourceIndex = i\<rparr>]) (ss[i := s'])
          (ps(i \<mapsto> r)) (tr @ [Await i (Returns (LEntry e)), PopAsync i])"
    unfolding steps_def by (elim conjE)
  from this [rule_format, OF assms(2,3,4,5,6)] show ?thesis .
qed

lemma rejectedI:
  assumes "Q U q (logSources r) (logEntryPromises r) tr" and "i \<in> U"
    and "logEntryPromises r i = Some x" and "\<forall>v. x \<noteq> Returns v"
    and "trace r = tr @ [Await i x]" and "status r = Threw"
  shows "aborted Q r"
  unfolding aborted_def rejected_def using assms by blast

lemma call_raisedI:
  assumes "Q U q ss (logEntryPromises r) tr" and "i \<in> U"
    and "logEntryPromises r i = Some (Returns (LEntry e))"
    and "pop (ss ! i) = (ThrowsAtCall, s')"
    and "trace r = tr @ [Await i (Returns (LEntry e)), PopAsync i, CallRaised i]"
    and "status r = Threw"
  shows "aborted Q r"
  unfolding aborted_def call_raised_def using assms by blast

lemma async_seed_rule:
  assumes Q: "steps Q"
  shows "distinct js \<Longrightarrow> Q (set js) es (logSources st) (logEntryPromises st) (trace st) \<Longrightarrow>
     status st = Running \<Longrightarrow> async_seed js es st = (es', st') \<Longrightarrow>
     (status st' = Running \<and> logEntryQueue st' = logEntryQueue st \<and>
      Q {} es' (logSources st') (logEntryPromises st') (trace st')) \<or> aborted Q st'"
proof (induction js arbitrary: es st)
  case Nil
  then show ?case by simp
next
  case (Cons k rest)
  let ?ps = "logEntryPromises st"
  note inv = Cons.prems(2)
  have kU: "k \<in> set (k # rest)" by simp
  have rest: "set (k # rest) - {k} = set rest" using Cons.prems(1) by auto
  from steps_shape [OF Q inv] have kdom: "k \<in> dom ?ps" and klen: "k < length (logSources st)"
    by auto
  then obtain r where r: "?ps k = Some r" by auto
  show ?case
  proof (cases r)
    case Throws
    with r Cons.prems(4) have st': "st' = st\<lparr>trace := trace st @ [Await k Throws], status := Threw\<rparr>"
      by simp
    have "aborted Q st'"
      by (rule rejectedI [where U = "set (k # rest)" and q = es and tr = "trace st"
            and i = k and x = Throws])
         (use inv r Throws in \<open>simp_all add: st'\<close>)
    then show ?thesis ..
  next
    case ThrowsAtCall
    with r Cons.prems(4)
    have st': "st' = st\<lparr>trace := trace st @ [Await k ThrowsAtCall], status := Threw\<rparr>"
      by simp
    have "aborted Q st'"
      by (rule rejectedI [where U = "set (k # rest)" and q = es and tr = "trace st"
            and i = k and x = ThrowsAtCall])
         (use inv r ThrowsAtCall in \<open>simp_all add: st'\<close>)
    then show ?thesis ..
  next
    case (Returns v)
    show ?thesis
    proof (cases v)
      case LFalse
      let ?st = "st\<lparr>trace := trace st @ [Await k (Returns LFalse)],
                    logEntryPromises := ?ps(k := None)\<rparr>"
      from r Returns LFalse Cons.prems(4) have run: "async_seed rest es ?st = (es', st')"
        by simp
      have f: "?ps k = Some (Returns LFalse)" using r Returns LFalse by simp
      have "Q (set (k # rest) - {k}) es (logSources st) (?ps(k := None))
              (trace st @ [Await k (Returns LFalse)])"
        by (rule steps_false [OF Q inv kU f])
      then have "Q (set rest) es (logSources ?st) (logEntryPromises ?st) (trace ?st)"
        unfolding rest by simp
      from Cons.IH [OF _ this _ run] Cons.prems(1,3) show ?thesis by simp
    next
      case (LEntry e)
      obtain r' s' where p: "pop (logSources st ! k) = (r', s')"
        by (cases "pop (logSources st ! k)")
      let ?sta = "st\<lparr>trace := trace st @ [Await k (Returns (LEntry e))]\<rparr>"
      let ?es = "es @ [\<lparr>logEntry = LEntry e, logSourceIndex = k\<rparr>]"
      have f: "?ps k = Some (Returns (LEntry e))" using r Returns LEntry by simp
      show ?thesis
      proof (cases "r' = ThrowsAtCall")
        case True
        let ?st = "st\<lparr>logSources := (logSources st)[k := s'],
                      trace := trace st @ [Await k (Returns (LEntry e)), PopAsync k, CallRaised k],
                      status := Threw\<rparr>"
        have sp: "start_pop k ?sta = ?st"
          using klen p True by (simp add: start_pop_raised)
        from r Returns LEntry Cons.prems(4) sp have st': "st' = ?st"
          by (simp add: Let_def)
        have "aborted Q st'"
          by (rule call_raisedI [where U = "set (k # rest)" and q = es and tr = "trace st"
                and i = k and e = e and ss = "logSources st" and s' = s'])
             (use inv f p True in \<open>simp_all add: st'\<close>)
        then show ?thesis ..
      next
        case False
        let ?st = "st\<lparr>logSources := (logSources st)[k := s'],
                      trace := trace st @ [Await k (Returns (LEntry e)), PopAsync k],
                      logEntryPromises := ?ps(k \<mapsto> r')\<rparr>"
        have sp: "start_pop k ?sta = ?st"
          using klen p False by (simp add: start_pop_eq)
        from r Returns LEntry Cons.prems(3,4) sp have run: "async_seed rest ?es ?st = (es', st')"
          by (simp add: Let_def)
        have "Q (set (k # rest) - {k}) ?es ((logSources st)[k := s']) (?ps(k \<mapsto> r'))
                (trace st @ [Await k (Returns (LEntry e)), PopAsync k])"
          by (rule steps_entry [OF Q inv kU f p False])
        then have "Q (set rest) ?es (logSources ?st) (logEntryPromises ?st) (trace ?st)"
          unfolding rest by simp
        from Cons.IH [OF _ this _ run] Cons.prems(1,3) show ?thesis by simp
      qed
    qed
  qed
qed

lemma async_body_rule:
  assumes Q: "steps Q"
    and inv: "Q {} (logEntryQueue st) (logSources st) (logEntryPromises st) (trace st)"
    and run: "status st = Running"
    and pop: "pq_pop (logEntryQueue st) = Some (item, q')"
  shows "(status (async_body item q' st) = Running \<and>
          Q {} (logEntryQueue (async_body item q' st)) (logSources (async_body item q' st))
             (logEntryPromises (async_body item q' st)) (trace (async_body item q' st)))
         \<or> aborted Q (async_body item q' st)"
proof -
  let ?i = "logSourceIndex item"
  let ?ps = "logEntryPromises st"
  let ?tr = "trace st @ [Print (logEntry item)]"
  have inv1: "Q {?i} q' (logSources st) ?ps ?tr"
    by (rule steps_print [OF Q inv pop])
  from steps_shape [OF Q inv1] have idom: "?i \<in> dom ?ps" and ilen: "?i < length (logSources st)"
    by auto
  then obtain r where r: "?ps ?i = Some r" by auto
  show ?thesis
  proof (cases r)
    case Throws
    with r have b: "async_body item q' st =
        st\<lparr>logEntryQueue := q', trace := ?tr @ [Await ?i Throws], status := Threw\<rparr>"
      by (simp add: async_body_def Let_def)
    have "aborted Q (async_body item q' st)"
      by (rule rejectedI [where U = "{?i}" and q = q' and tr = ?tr and i = ?i and x = Throws])
         (use inv1 r Throws in \<open>simp_all add: b\<close>)
    then show ?thesis ..
  next
    case ThrowsAtCall
    with r have b: "async_body item q' st =
        st\<lparr>logEntryQueue := q', trace := ?tr @ [Await ?i ThrowsAtCall], status := Threw\<rparr>"
      by (simp add: async_body_def Let_def)
    have "aborted Q (async_body item q' st)"
      by (rule rejectedI [where U = "{?i}" and q = q' and tr = ?tr and i = ?i
            and x = ThrowsAtCall])
         (use inv1 r ThrowsAtCall in \<open>simp_all add: b\<close>)
    then show ?thesis ..
  next
    case (Returns v)
    show ?thesis
    proof (cases v)
      case LFalse
      with r Returns have b: "async_body item q' st =
          st\<lparr>logEntryQueue := q', trace := ?tr @ [Await ?i (Returns LFalse)],
             logEntryPromises := ?ps(?i := None)\<rparr>"
        by (simp add: async_body_def Let_def)
      have f: "?ps ?i = Some (Returns LFalse)" using r Returns LFalse by simp
      have "Q ({?i} - {?i}) q' (logSources st) (?ps(?i := None))
              (?tr @ [Await ?i (Returns LFalse)])"
        by (rule steps_false [OF Q inv1 _ f]) simp
      then have "Q {} q' (logSources st) (?ps(?i := None)) (?tr @ [Await ?i (Returns LFalse)])"
        by simp
      with run show ?thesis unfolding b by simp
    next
      case (LEntry e)
      obtain r' s' where p: "pop (logSources st ! ?i) = (r', s')"
        by (cases "pop (logSources st ! ?i)")
      let ?q = "q' @ [\<lparr>logEntry = LEntry e, logSourceIndex = ?i\<rparr>]"
      let ?sta = "st\<lparr>logEntryQueue := ?q, trace := ?tr @ [Await ?i (Returns (LEntry e))]\<rparr>"
      have b0: "async_body item q' st = start_pop ?i ?sta"
        using r Returns LEntry by (simp add: async_body_def Let_def pq_push_def)
      have f: "?ps ?i = Some (Returns (LEntry e))" using r Returns LEntry by simp
      show ?thesis
      proof (cases "r' = ThrowsAtCall")
        case True
        have b: "async_body item q' st =
            st\<lparr>logSources := (logSources st)[?i := s'], logEntryQueue := ?q,
               trace := ?tr @ [Await ?i (Returns (LEntry e)), PopAsync ?i, CallRaised ?i],
               status := Threw\<rparr>"
          unfolding b0 using ilen p True by (simp add: start_pop_raised)
        have "aborted Q (async_body item q' st)"
          by (rule call_raisedI [where U = "{?i}" and q = q' and tr = ?tr and i = ?i
                and e = e and ss = "logSources st" and s' = s'])
             (use inv1 f p True in \<open>simp_all add: b\<close>)
        then show ?thesis ..
      next
        case False
        have b: "async_body item q' st =
            st\<lparr>logSources := (logSources st)[?i := s'], logEntryQueue := ?q,
               trace := ?tr @ [Await ?i (Returns (LEntry e)), PopAsync ?i],
               logEntryPromises := ?ps(?i \<mapsto> r')\<rparr>"
          unfolding b0 using ilen p False by (simp add: start_pop_eq)
        have "Q ({?i} - {?i}) ?q ((logSources st)[?i := s']) (?ps(?i \<mapsto> r'))
                (?tr @ [Await ?i (Returns (LEntry e)), PopAsync ?i])"
          by (rule steps_entry [OF Q inv1 _ f p False]) simp
        then have "Q {} ?q ((logSources st)[?i := s']) (?ps(?i \<mapsto> r'))
                (?tr @ [Await ?i (Returns (LEntry e)), PopAsync ?i])"
          by simp
        with run show ?thesis unfolding b by simp
      qed
    qed
  qed
qed

lemma async_loop_rule:
  assumes Q: "steps Q"
  shows "Q {} (logEntryQueue st) (logSources st) (logEntryPromises st) (trace st) \<Longrightarrow>
     status st = Running \<Longrightarrow> completed Q (async_loop st) \<or> aborted Q (async_loop st)"
proof (induction st rule: async_loop.induct)
  case (1 st)
  show ?case
  proof (cases "pq_pop (logEntryQueue st)")
    case None
    then have "logEntryQueue st = []" by (cases "logEntryQueue st") (simp_all add: Let_def)
    with None "1.prems" have "completed Q (async_loop st)"
      by (simp add: completed_def)
    then show ?thesis ..
  next
    case (Some p)
    obtain item q' where p: "p = (item, q')" by (cases p)
    let ?st = "async_body item q' st"
    from async_body_rule [OF Q "1.prems" Some [unfolded p]]
    show ?thesis
    proof
      assume a: "status ?st = Running \<and>
          Q {} (logEntryQueue ?st) (logSources ?st) (logEntryPromises ?st) (trace ?st)"
      then have "completed Q (async_loop ?st) \<or> aborted Q (async_loop ?st)"
        using "1.IH" [OF Some p [symmetric] refl] by simp
      moreover have "async_loop st = async_loop ?st"
        using Some p a by (subst async_loop.simps) (simp add: Let_def)
      ultimately show ?thesis by simp
    next
      assume a: "aborted Q ?st"
      then have "status ?st \<noteq> Running" by (simp add: aborted_def)
      then have "async_loop st = ?st"
        using Some p by (subst async_loop.simps) (simp add: Let_def)
      with a show ?thesis by simp
    qed
  qed
qed

text \<open>
  The rule: an invariant that survives the three moves and holds after the
  \<^verbatim>\<open>reduce\<close> holds when the run ends, however it ends.
\<close>

lemma async_merge_rule:
  assumes Q: "steps Q"
    and init: "\<forall>i<length srcs. willing (srcs ! i) \<Longrightarrow>
               Q {..<length srcs} [] (map (\<lambda>s. snd (pop s)) srcs)
                 (\<lambda>i. if i < length srcs then Some (fst (pop (srcs ! i))) else None)
                 (map PopAsync [0..<length srcs])"
  shows "completed Q (async_merge srcs) \<or> aborted Q (async_merge srcs) \<or>
         refused srcs (async_merge srcs)"
proof -
  let ?sta = "async_reduce srcs"
  from async_reduce_cases [of srcs] show ?thesis
  proof
    assume r: "refused srcs ?sta"
    then have "status ?sta \<noteq> Running" by (simp add: refused_def)
    then have "async_merge srcs = ?sta" by (simp add: async_merge_def)
    with r show ?thesis by simp
  next
    assume w: "\<forall>i<length srcs. willing (srcs ! i)"
    note eq = async_reduce_eq [OF w]
    obtain es st where seed: "async_seed [0..<length srcs] [] ?sta = (es, st)"
      by (cases "async_seed [0..<length srcs] [] ?sta")
    have run: "status ?sta = Running" by (simp add: eq)
    have "Q (set [0..<length srcs]) [] (logSources ?sta) (logEntryPromises ?sta) (trace ?sta)"
      using init [OF w] by (simp add: eq lessThan_atLeast0)
    from async_seed_rule [OF Q _ this run seed]
    have "(status st = Running \<and> logEntryQueue st = [] \<and>
           Q {} es (logSources st) (logEntryPromises st) (trace st)) \<or> aborted Q st"
      by (simp add: eq)
    then show ?thesis
    proof
      assume a: "status st = Running \<and> logEntryQueue st = [] \<and>
           Q {} es (logSources st) (logEntryPromises st) (trace st)"
      let ?st = "st\<lparr>logEntryQueue := pq_build es\<rparr>"
      have "completed Q (async_loop ?st) \<or> aborted Q (async_loop ?st)"
        by (rule async_loop_rule [OF Q]) (use a in \<open>simp_all add: pq_build_def\<close>)
      with seed a run show ?thesis by (auto simp add: async_merge_def)
    next
      assume a: "aborted Q st"
      then have "status st \<noteq> Running" by (simp add: aborted_def)
      with seed a run show ?thesis by (simp add: async_merge_def)
    qed
  qed
qed

text \<open>
  \<open>steps_under Q P\<close>: the invariant \<open>P\<close> survives each move from a state in which
  \<open>Q\<close> holds as well. Invariants are proved one on top of the other this way.
\<close>

definition steps_under :: "invariant \<Rightarrow> invariant \<Rightarrow> bool" where
  "steps_under Q P \<longleftrightarrow>
     (\<forall>q ss ps tr item q'. Q {} q ss ps tr \<longrightarrow> P {} q ss ps tr \<longrightarrow>
        pq_pop q = Some (item, q') \<longrightarrow>
        P {logSourceIndex item} q' ss ps (tr @ [Print (logEntry item)])) \<and>
     (\<forall>U q ss ps tr i. Q U q ss ps tr \<longrightarrow> P U q ss ps tr \<longrightarrow> i \<in> U \<longrightarrow>
        ps i = Some (Returns LFalse) \<longrightarrow>
        P (U - {i}) q ss (ps(i := None)) (tr @ [Await i (Returns LFalse)])) \<and>
     (\<forall>U q ss ps tr i e r s'. Q U q ss ps tr \<longrightarrow> P U q ss ps tr \<longrightarrow> i \<in> U \<longrightarrow>
        ps i = Some (Returns (LEntry e)) \<longrightarrow> pop (ss ! i) = (r, s') \<longrightarrow>
        r \<noteq> ThrowsAtCall \<longrightarrow>
        P (U - {i}) (q @ [\<lparr>logEntry = LEntry e, logSourceIndex = i\<rparr>]) (ss[i := s'])
          (ps(i \<mapsto> r)) (tr @ [Await i (Returns (LEntry e)), PopAsync i]))"

lemma steps_underI:
  assumes "\<And>q ss ps tr item q'. Q {} q ss ps tr \<Longrightarrow> P {} q ss ps tr \<Longrightarrow>
        pq_pop q = Some (item, q') \<Longrightarrow>
        P {logSourceIndex item} q' ss ps (tr @ [Print (logEntry item)])"
    and "\<And>U q ss ps tr i. Q U q ss ps tr \<Longrightarrow> P U q ss ps tr \<Longrightarrow> i \<in> U \<Longrightarrow>
        ps i = Some (Returns LFalse) \<Longrightarrow>
        P (U - {i}) q ss (ps(i := None)) (tr @ [Await i (Returns LFalse)])"
    and "\<And>U q ss ps tr i e r s'. Q U q ss ps tr \<Longrightarrow> P U q ss ps tr \<Longrightarrow> i \<in> U \<Longrightarrow>
        ps i = Some (Returns (LEntry e)) \<Longrightarrow> pop (ss ! i) = (r, s') \<Longrightarrow>
        r \<noteq> ThrowsAtCall \<Longrightarrow>
        P (U - {i}) (q @ [\<lparr>logEntry = LEntry e, logSourceIndex = i\<rparr>]) (ss[i := s'])
          (ps(i \<mapsto> r)) (tr @ [Await i (Returns (LEntry e)), PopAsync i])"
  shows "steps_under Q P"
  unfolding steps_under_def
proof (intro conjI allI impI)
  fix q ss ps tr item q'
  assume "Q {} q ss ps tr" "P {} q ss ps tr" "pq_pop q = Some (item, q')"
  then show "P {logSourceIndex item} q' ss ps (tr @ [Print (logEntry item)])"
    by (rule assms(1))
next
  fix U q ss ps tr i
  assume "Q U q ss ps tr" "P U q ss ps tr" "i \<in> U" "ps i = Some (Returns LFalse)"
  then show "P (U - {i}) q ss (ps(i := None)) (tr @ [Await i (Returns LFalse)])"
    by (rule assms(2))
next
  fix U q ss ps tr i e r s'
  assume "Q U q ss ps tr" "P U q ss ps tr" "i \<in> U" "ps i = Some (Returns (LEntry e))"
    "pop (ss ! i) = (r, s')" "r \<noteq> ThrowsAtCall"
  then show "P (U - {i}) (q @ [\<lparr>logEntry = LEntry e, logSourceIndex = i\<rparr>]) (ss[i := s'])
          (ps(i \<mapsto> r)) (tr @ [Await i (Returns (LEntry e)), PopAsync i])"
    by (rule assms(3))
qed

lemma steps_under_print:
  assumes "steps_under Q P" and "Q {} q ss ps tr" and "P {} q ss ps tr"
    and "pq_pop q = Some (item, q')"
  shows "P {logSourceIndex item} q' ss ps (tr @ [Print (logEntry item)])"
proof -
  from assms(1) have "\<forall>q ss ps tr item q'. Q {} q ss ps tr \<longrightarrow> P {} q ss ps tr \<longrightarrow>
        pq_pop q = Some (item, q') \<longrightarrow>
        P {logSourceIndex item} q' ss ps (tr @ [Print (logEntry item)])"
    unfolding steps_under_def by (elim conjE)
  from this [rule_format, OF assms(2,3,4)] show ?thesis .
qed

lemma steps_under_false:
  assumes "steps_under Q P" and "Q U q ss ps tr" and "P U q ss ps tr" and "i \<in> U"
    and "ps i = Some (Returns LFalse)"
  shows "P (U - {i}) q ss (ps(i := None)) (tr @ [Await i (Returns LFalse)])"
proof -
  from assms(1) have "\<forall>U q ss ps tr i. Q U q ss ps tr \<longrightarrow> P U q ss ps tr \<longrightarrow> i \<in> U \<longrightarrow>
        ps i = Some (Returns LFalse) \<longrightarrow>
        P (U - {i}) q ss (ps(i := None)) (tr @ [Await i (Returns LFalse)])"
    unfolding steps_under_def by (elim conjE)
  from this [rule_format, OF assms(2,3,4,5)] show ?thesis .
qed

lemma steps_under_entry:
  assumes "steps_under Q P" and "Q U q ss ps tr" and "P U q ss ps tr" and "i \<in> U"
    and "ps i = Some (Returns (LEntry e))" and "pop (ss ! i) = (r, s')"
    and "r \<noteq> ThrowsAtCall"
  shows "P (U - {i}) (q @ [\<lparr>logEntry = LEntry e, logSourceIndex = i\<rparr>]) (ss[i := s'])
          (ps(i \<mapsto> r)) (tr @ [Await i (Returns (LEntry e)), PopAsync i])"
proof -
  from assms(1) have "\<forall>U q ss ps tr i e r s'. Q U q ss ps tr \<longrightarrow> P U q ss ps tr \<longrightarrow> i \<in> U \<longrightarrow>
        ps i = Some (Returns (LEntry e)) \<longrightarrow> pop (ss ! i) = (r, s') \<longrightarrow>
        r \<noteq> ThrowsAtCall \<longrightarrow>
        P (U - {i}) (q @ [\<lparr>logEntry = LEntry e, logSourceIndex = i\<rparr>]) (ss[i := s'])
          (ps(i \<mapsto> r)) (tr @ [Await i (Returns (LEntry e)), PopAsync i])"
    unfolding steps_under_def by (elim conjE)
  from this [rule_format, OF assms(2,3,4,5,6,7)] show ?thesis .
qed

lemma stepsI:
  assumes "\<And>U q ss ps tr. Q U q ss ps tr \<Longrightarrow>
        U \<subseteq> dom ps \<and> logSourceIndex ` set q \<subseteq> dom ps \<and> dom ps \<subseteq> {..<length ss}"
    and "\<And>q ss ps tr item q'. Q {} q ss ps tr \<Longrightarrow> pq_pop q = Some (item, q') \<Longrightarrow>
        Q {logSourceIndex item} q' ss ps (tr @ [Print (logEntry item)])"
    and "\<And>U q ss ps tr i. Q U q ss ps tr \<Longrightarrow> i \<in> U \<Longrightarrow> ps i = Some (Returns LFalse) \<Longrightarrow>
        Q (U - {i}) q ss (ps(i := None)) (tr @ [Await i (Returns LFalse)])"
    and "\<And>U q ss ps tr i e r s'. Q U q ss ps tr \<Longrightarrow> i \<in> U \<Longrightarrow>
        ps i = Some (Returns (LEntry e)) \<Longrightarrow> pop (ss ! i) = (r, s') \<Longrightarrow>
        r \<noteq> ThrowsAtCall \<Longrightarrow>
        Q (U - {i}) (q @ [\<lparr>logEntry = LEntry e, logSourceIndex = i\<rparr>]) (ss[i := s'])
          (ps(i \<mapsto> r)) (tr @ [Await i (Returns (LEntry e)), PopAsync i])"
  shows "steps Q"
  unfolding steps_def
proof (intro conjI allI impI)
  fix U q ss ps tr
  assume "Q U q ss ps tr"
  from assms(1) [OF this]
  show "U \<subseteq> dom ps" and "logSourceIndex ` set q \<subseteq> dom ps" and "dom ps \<subseteq> {..<length ss}"
    by simp_all
next
  fix q ss ps tr item q'
  assume "Q {} q ss ps tr" "pq_pop q = Some (item, q')"
  then show "Q {logSourceIndex item} q' ss ps (tr @ [Print (logEntry item)])"
    by (rule assms(2))
next
  fix U q ss ps tr i
  assume "Q U q ss ps tr" "i \<in> U" "ps i = Some (Returns LFalse)"
  then show "Q (U - {i}) q ss (ps(i := None)) (tr @ [Await i (Returns LFalse)])"
    by (rule assms(3))
next
  fix U q ss ps tr i e r s'
  assume "Q U q ss ps tr" "i \<in> U" "ps i = Some (Returns (LEntry e))" "pop (ss ! i) = (r, s')"
    "r \<noteq> ThrowsAtCall"
  then show "Q (U - {i}) (q @ [\<lparr>logEntry = LEntry e, logSourceIndex = i\<rparr>]) (ss[i := s'])
          (ps(i \<mapsto> r)) (tr @ [Await i (Returns (LEntry e)), PopAsync i])"
    by (rule assms(4))
qed

lemma steps_conj:
  assumes Q: "steps Q" and P: "steps_under Q P"
  shows "steps (\<lambda>U q ss ps tr. Q U q ss ps tr \<and> P U q ss ps tr)"
proof (rule stepsI)
  fix U q ss ps tr
  assume a: "Q U q ss ps tr \<and> P U q ss ps tr"
  then have q: "Q U q ss ps tr" ..
  from steps_shape [OF Q q]
  show "U \<subseteq> dom ps \<and> logSourceIndex ` set q \<subseteq> dom ps \<and> dom ps \<subseteq> {..<length ss}"
    by (intro conjI)
next
  fix q ss ps tr item q'
  assume a: "Q {} q ss ps tr \<and> P {} q ss ps tr" and p: "pq_pop q = Some (item, q')"
  from a have q: "Q {} q ss ps tr" and pp: "P {} q ss ps tr" by (rule conjunct1, rule conjunct2)
  show "Q {logSourceIndex item} q' ss ps (tr @ [Print (logEntry item)]) \<and>
        P {logSourceIndex item} q' ss ps (tr @ [Print (logEntry item)])"
    by (intro conjI steps_print [OF Q q p] steps_under_print [OF P q pp p])
next
  fix U q ss ps tr i
  assume a: "Q U q ss ps tr \<and> P U q ss ps tr" and i: "i \<in> U"
    and f: "ps i = Some (Returns LFalse)"
  from a have q: "Q U q ss ps tr" and pp: "P U q ss ps tr" by (rule conjunct1, rule conjunct2)
  show "Q (U - {i}) q ss (ps(i := None)) (tr @ [Await i (Returns LFalse)]) \<and>
        P (U - {i}) q ss (ps(i := None)) (tr @ [Await i (Returns LFalse)])"
    by (intro conjI steps_false [OF Q q i f] steps_under_false [OF P q pp i f])
next
  fix U q ss ps tr i e r s'
  assume a: "Q U q ss ps tr \<and> P U q ss ps tr" and i: "i \<in> U"
    and f: "ps i = Some (Returns (LEntry e))" and p: "pop (ss ! i) = (r, s')"
    and n: "r \<noteq> ThrowsAtCall"
  from a have q: "Q U q ss ps tr" and pp: "P U q ss ps tr" by (rule conjunct1, rule conjunct2)
  show "Q (U - {i}) (q @ [\<lparr>logEntry = LEntry e, logSourceIndex = i\<rparr>]) (ss[i := s'])
          (ps(i \<mapsto> r)) (tr @ [Await i (Returns (LEntry e)), PopAsync i]) \<and>
        P (U - {i}) (q @ [\<lparr>logEntry = LEntry e, logSourceIndex = i\<rparr>]) (ss[i := s'])
          (ps(i \<mapsto> r)) (tr @ [Await i (Returns (LEntry e)), PopAsync i])"
    by (intro conjI steps_entry [OF Q q i f p n] steps_under_entry [OF P q pp i f p n])
qed

subsection \<open>The shape of the bookkeeping\<close>

text \<open>
  The keys of the map of promises are the indices of the gathered entries together
  with the indices still to be awaited; no index occurs twice.
\<close>

definition shape :: invariant where
  "shape U q ss ps tr \<longleftrightarrow>
     dom ps = logSourceIndex ` set q \<union> U \<and> dom ps \<subseteq> {..<length ss} \<and>
     distinct (map logSourceIndex q) \<and> U \<inter> logSourceIndex ` set q = {}"

lemma distinct_map_remove1:
  assumes "distinct (map f q)" and "x \<in> set q"
  shows "distinct (map f (remove1 x q))" and "f ` set (remove1 x q) = f ` set q - {f x}"
proof -
  from assms(1) have d: "distinct q" and inj: "inj_on f (set q)"
    by (simp_all add: distinct_map)
  have s: "set (remove1 x q) = set q - {x}" using d by simp
  show "distinct (map f (remove1 x q))"
    unfolding distinct_map using d inj s by (auto intro: inj_on_subset)
  show "f ` set (remove1 x q) = f ` set q - {f x}"
    unfolding s using inj assms(2) by (auto simp: inj_on_def)
qed

lemma steps_shape_inv: "steps shape"
proof (rule stepsI)
  fix U q ss ps tr
  assume "shape U q ss ps tr"
  then show "U \<subseteq> dom ps \<and> logSourceIndex ` set q \<subseteq> dom ps \<and> dom ps \<subseteq> {..<length ss}"
    unfolding shape_def by blast
next
  fix q ss ps tr item q'
  assume s: "shape {} q ss ps tr" and p: "pq_pop q = Some (item, q')"
  from pq_pop_remove1 [OF p] have m: "item \<in> set q" and q': "q' = remove1 item q" .
  from s have d: "distinct (map logSourceIndex q)" and dom: "dom ps = logSourceIndex ` set q"
    and len: "dom ps \<subseteq> {..<length ss}"
    unfolding shape_def by blast+
  note r = distinct_map_remove1 [OF d m]
  have "dom ps = logSourceIndex ` set q' \<union> {logSourceIndex item}"
    unfolding q' r(2) dom using m by auto
  moreover have "{logSourceIndex item} \<inter> logSourceIndex ` set q' = {}"
    unfolding q' r(2) by auto
  ultimately show "shape {logSourceIndex item} q' ss ps (tr @ [Print (logEntry item)])"
    unfolding shape_def using len r(1) q' by simp
next
  fix U q ss ps tr i
  assume s: "shape U q ss ps tr" and i: "i \<in> U" and f: "ps i = Some (Returns LFalse)"
  from s i have "i \<notin> logSourceIndex ` set q" by (auto simp: shape_def)
  with s i show "shape (U - {i}) q ss (ps(i := None)) (tr @ [Await i (Returns LFalse)])"
    unfolding shape_def by auto
next
  fix U q ss ps tr i e r s'
  assume s: "shape U q ss ps tr" and i: "i \<in> U"
  let ?q = "q @ [\<lparr>logEntry = LEntry e, logSourceIndex = i\<rparr>]"
  from s have dom: "dom ps = logSourceIndex ` set q \<union> U" and len: "dom ps \<subseteq> {..<length ss}"
    and d: "distinct (map logSourceIndex q)" and disj: "U \<inter> logSourceIndex ` set q = {}"
    unfolding shape_def by blast+
  from disj i have n: "i \<notin> logSourceIndex ` set q" by blast
  from dom i have "dom (ps(i \<mapsto> r)) = dom ps" by auto
  moreover have "logSourceIndex ` set ?q \<union> (U - {i}) = logSourceIndex ` set q \<union> U"
    using i by auto
  moreover have "distinct (map logSourceIndex ?q)" using d n by simp
  moreover have "(U - {i}) \<inter> logSourceIndex ` set ?q = {}" using disj by auto
  ultimately show "shape (U - {i}) ?q (ss[i := s'])
          (ps(i \<mapsto> r)) (tr @ [Await i (Returns (LEntry e)), PopAsync i])"
    unfolding shape_def using dom len by simp
qed

lemma shape_init:
  "shape {..<length srcs} [] (map (\<lambda>s. snd (pop s)) srcs)
     (\<lambda>i. if i < length srcs then Some (fst (pop (srcs ! i))) else None)
     (map PopAsync [0..<length srcs])"
  by (auto simp: shape_def dom_def)

text \<open>Every invariant that is kept under \<open>shape\<close> holds when the run is over.\<close>

lemma async_merge_invariant:
  assumes P: "steps_under shape P"
    and init: "\<forall>i<length srcs. willing (srcs ! i) \<Longrightarrow>
               P {..<length srcs} [] (map (\<lambda>s. snd (pop s)) srcs)
                 (\<lambda>i. if i < length srcs then Some (fst (pop (srcs ! i))) else None)
                 (map PopAsync [0..<length srcs])"
  shows "completed (\<lambda>U q ss ps tr. shape U q ss ps tr \<and> P U q ss ps tr) (async_merge srcs) \<or>
         aborted (\<lambda>U q ss ps tr. shape U q ss ps tr \<and> P U q ss ps tr) (async_merge srcs) \<or>
         refused srcs (async_merge srcs)"
  by (rule async_merge_rule [OF steps_conj [OF steps_shape_inv P]]) (simp add: shape_init init)

lemma steps_under_True: "steps_under shape (\<lambda>U q ss ps tr. True)"
  by (simp add: steps_under_def)

lemma async_status:
  "status (async_merge srcs) = Completed \<or> status (async_merge srcs) = Threw"
  using async_merge_invariant [OF steps_under_True, of srcs]
  by (auto simp: completed_def aborted_def refused_def)

section \<open>One fetch in flight per active source\<close>

lemma outstanding_append:
  "outstanding i (a @ b) = outstanding i a + outstanding i b"
  by (induction a rule: outstanding.induct) auto

lemma outstanding_init:
  "outstanding i (map PopAsync [0..<n]) = (if i < n then 1 else 0)"
  by (induction n) (auto simp: outstanding_append)

text \<open>
  Three properties of a trace: before each await every source has one fetch in flight
  if it has not delivered \<^verbatim>\<open>false\<close> yet and none otherwise; an await that delivers
  an entry is followed at once by the next pull of the same index; and no pull of an
  index follows an await that delivered \<^verbatim>\<open>false\<close> for it.
\<close>

definition balanced :: "nat \<Rightarrow> event list \<Rightarrow> bool" where
  "balanced n tr \<longleftrightarrow>
     (\<forall>i<n. outstanding i tr = (if Await i (Returns LFalse) \<in> set tr then 0 else 1))"

definition awaits_balanced :: "nat \<Rightarrow> event list \<Rightarrow> bool" where
  "awaits_balanced n tr \<longleftrightarrow> (\<forall>p j r rest. tr = p @ Await j r # rest \<longrightarrow> balanced n p)"

definition refills :: "event list \<Rightarrow> bool" where
  "refills tr \<longleftrightarrow>
     (\<forall>p j e rest. tr = p @ Await j (Returns (LEntry e)) # rest \<longrightarrow>
        (\<exists>rest'. rest = PopAsync j # rest'))"

definition no_pull_after_false :: "event list \<Rightarrow> bool" where
  "no_pull_after_false tr \<longleftrightarrow>
     (\<forall>p j rest. tr = p @ PopAsync j # rest \<longrightarrow> Await j (Returns LFalse) \<notin> set p)"

lemma snoc_split:
  assumes "tr @ [ev] = p @ a # rest"
  shows "(p = tr \<and> a = ev \<and> rest = []) \<or> (\<exists>rest'. tr = p @ a # rest' \<and> rest = rest' @ [ev])"
proof (cases rest rule: rev_cases)
  case Nil
  with assms show ?thesis by simp
next
  case (snoc rest' x)
  with assms have "tr @ [ev] = (p @ a # rest') @ [x]" by simp
  then have "tr = p @ a # rest'" and "ev = x" by (simp_all only: append1_eq_conv)
  with snoc show ?thesis by simp
qed

lemma awaits_balanced_snoc:
  assumes "awaits_balanced n tr" and "\<And>j r. ev = Await j r \<Longrightarrow> balanced n tr"
  shows "awaits_balanced n (tr @ [ev])"
  unfolding awaits_balanced_def
proof (intro allI impI)
  fix p j r rest
  assume "tr @ [ev] = p @ Await j r # rest"
  from snoc_split [OF this] show "balanced n p"
  proof
    assume "p = tr \<and> Await j r = ev \<and> rest = []"
    then show ?thesis using assms(2) [of j r] by simp
  next
    assume "\<exists>rest'. tr = p @ Await j r # rest' \<and> rest = rest' @ [ev]"
    then show ?thesis using assms(1) unfolding awaits_balanced_def by blast
  qed
qed

lemma refills_snoc:
  assumes "refills tr" and "\<And>j e. ev \<noteq> Await j (Returns (LEntry e))"
  shows "refills (tr @ [ev])"
  unfolding refills_def
proof (intro allI impI)
  fix p j e rest
  assume "tr @ [ev] = p @ Await j (Returns (LEntry e)) # rest"
  from snoc_split [OF this] show "\<exists>rest'. rest = PopAsync j # rest'"
  proof
    assume "p = tr \<and> Await j (Returns (LEntry e)) = ev \<and> rest = []"
    then show ?thesis using assms(2) [of j e] by simp
  next
    assume "\<exists>rest'. tr = p @ Await j (Returns (LEntry e)) # rest' \<and> rest = rest' @ [ev]"
    then obtain rest' where t: "tr = p @ Await j (Returns (LEntry e)) # rest'"
      and r: "rest = rest' @ [ev]" by blast
    from assms(1) t obtain rest'' where "rest' = PopAsync j # rest''"
      unfolding refills_def by blast
    with r show ?thesis by simp
  qed
qed

lemma refills_entry:
  assumes "refills tr"
  shows "refills (tr @ [Await i (Returns (LEntry e)), PopAsync i])"
  unfolding refills_def
proof (intro allI impI)
  fix p j e' rest
  assume "tr @ [Await i (Returns (LEntry e)), PopAsync i] = p @ Await j (Returns (LEntry e')) # rest"
  then have "(tr @ [Await i (Returns (LEntry e))]) @ [PopAsync i]
      = p @ Await j (Returns (LEntry e')) # rest" by simp
  from snoc_split [OF this]
  obtain rest' where t: "tr @ [Await i (Returns (LEntry e))] = p @ Await j (Returns (LEntry e')) # rest'"
    and r: "rest = rest' @ [PopAsync i]" by auto
  from snoc_split [OF t] show "\<exists>rest'. rest = PopAsync j # rest'"
  proof
    assume "p = tr \<and> Await j (Returns (LEntry e')) = Await i (Returns (LEntry e)) \<and> rest' = []"
    with r show ?thesis by simp
  next
    assume "\<exists>r2. tr = p @ Await j (Returns (LEntry e')) # r2 \<and> rest' = r2 @ [Await i (Returns (LEntry e))]"
    then obtain r2 where t2: "tr = p @ Await j (Returns (LEntry e')) # r2"
      and r2: "rest' = r2 @ [Await i (Returns (LEntry e))]" by blast
    from assms t2 obtain r3 where "r2 = PopAsync j # r3" unfolding refills_def by blast
    with r r2 show ?thesis by simp
  qed
qed

lemma no_pull_after_false_snoc:
  assumes "no_pull_after_false tr"
    and "\<And>j. ev = PopAsync j \<Longrightarrow> Await j (Returns LFalse) \<notin> set tr"
  shows "no_pull_after_false (tr @ [ev])"
  unfolding no_pull_after_false_def
proof (intro allI impI)
  fix p j rest
  assume "tr @ [ev] = p @ PopAsync j # rest"
  from snoc_split [OF this] show "Await j (Returns LFalse) \<notin> set p"
  proof
    assume "p = tr \<and> PopAsync j = ev \<and> rest = []"
    then show ?thesis using assms(2) [of j] by simp
  next
    assume "\<exists>rest'. tr = p @ PopAsync j # rest' \<and> rest = rest' @ [ev]"
    then show ?thesis using assms(1) unfolding no_pull_after_false_def by blast
  qed
qed

lemma no_awaits:
  assumes "\<And>j r. Await j r \<notin> set tr"
  shows "awaits_balanced n tr" and "refills tr" and "no_pull_after_false tr"
proof -
  show "awaits_balanced n tr"
    unfolding awaits_balanced_def
  proof (intro allI impI)
    fix p j r rest
    assume "tr = p @ Await j r # rest"
    then have "Await j r \<in> set tr" by simp
    with assms show "balanced n p" by blast
  qed
  show "refills tr"
    unfolding refills_def
  proof (intro allI impI)
    fix p j e rest
    assume "tr = p @ Await j (Returns (LEntry e)) # rest"
    then have "Await j (Returns (LEntry e)) \<in> set tr" by simp
    with assms show "\<exists>rest'. rest = PopAsync j # rest'" by blast
  qed
  show "no_pull_after_false tr"
    unfolding no_pull_after_false_def
  proof (intro allI impI)
    fix p j rest
    assume "tr = p @ PopAsync j # rest"
    then have "set p \<subseteq> set tr" by auto
    with assms show "Await j (Returns LFalse) \<notin> set p" by blast
  qed
qed

definition piped :: "nat \<Rightarrow> invariant" where
  "piped n U q ss ps tr \<longleftrightarrow>
     length ss = n \<and>
     (\<forall>i. outstanding i tr = (if i \<in> dom ps then 1 else 0)) \<and>
     (\<forall>i<n. (i \<in> dom ps) = (Await i (Returns LFalse) \<notin> set tr)) \<and>
     awaits_balanced n tr \<and> refills tr \<and> no_pull_after_false tr"

lemma piped_balanced:
  assumes "piped n U q ss ps tr"
  shows "balanced n tr"
  using assms unfolding piped_def balanced_def by auto

text \<open>The trace after an await that delivers an entry and the call that follows it.\<close>

lemma piped_refill:
  assumes s: "shape U q ss ps tr" and p: "piped n U q ss ps tr" and i: "i \<in> U"
    and f: "ps i = Some (Returns (LEntry e))"
  shows "awaits_balanced n (tr @ [Await i (Returns (LEntry e)), PopAsync i])"
    and "refills (tr @ [Await i (Returns (LEntry e)), PopAsync i])"
    and "no_pull_after_false (tr @ [Await i (Returns (LEntry e)), PopAsync i])"
proof -
  let ?a = "Await i (Returns (LEntry e))"
  from p have n: "length ss = n"
    and d: "\<And>j. j < n \<Longrightarrow> (j \<in> dom ps) = (Await j (Returns LFalse) \<notin> set tr)"
    and h: "awaits_balanced n tr" "refills tr" "no_pull_after_false tr"
    unfolding piped_def by blast+
  from s i n have len: "i < n" unfolding shape_def by auto
  from f have idom: "i \<in> dom ps" by auto
  have "awaits_balanced n (tr @ [?a])"
    by (rule awaits_balanced_snoc [OF h(1)]) (rule piped_balanced [OF p])
  then have "awaits_balanced n ((tr @ [?a]) @ [PopAsync i])"
    by (rule awaits_balanced_snoc) simp
  then show "awaits_balanced n (tr @ [?a, PopAsync i])" by simp
  show "refills (tr @ [?a, PopAsync i])" by (rule refills_entry [OF h(2)])
  have "no_pull_after_false (tr @ [?a])"
    by (rule no_pull_after_false_snoc [OF h(3)]) simp
  then have "no_pull_after_false ((tr @ [?a]) @ [PopAsync i])"
    by (rule no_pull_after_false_snoc) (use d [OF len] idom in auto)
  then show "no_pull_after_false (tr @ [?a, PopAsync i])" by simp
qed

lemma steps_piped: "steps_under shape (piped n)"
proof (rule steps_underI)
  fix q ss ps tr item q'
  assume p: "piped n {} q ss ps tr"
  show "piped n {logSourceIndex item} q' ss ps (tr @ [Print (logEntry item)])"
    using p unfolding piped_def
    by (auto simp: outstanding_append intro!: awaits_balanced_snoc refills_snoc
          no_pull_after_false_snoc)
next
  fix U q ss ps tr i
  assume s: "shape U q ss ps tr" and p: "piped n U q ss ps tr" and i: "i \<in> U"
    and f: "ps i = Some (Returns LFalse)"
  let ?tr = "tr @ [Await i (Returns LFalse)]"
  from p have n: "length ss = n"
    and o: "\<And>j. outstanding j tr = (if j \<in> dom ps then 1 else 0)"
    and d: "\<And>j. j < n \<Longrightarrow> (j \<in> dom ps) = (Await j (Returns LFalse) \<notin> set tr)"
    and h: "awaits_balanced n tr" "refills tr" "no_pull_after_false tr"
    unfolding piped_def by blast+
  from s i n have len: "i < n" unfolding shape_def by auto
  have 1: "\<forall>j. outstanding j ?tr = (if j \<in> dom (ps(i := None)) then 1 else 0)"
    using o f by (auto simp: outstanding_append)
  have 2: "\<forall>j<n. (j \<in> dom (ps(i := None))) = (Await j (Returns LFalse) \<notin> set ?tr)"
    using d by auto
  have 3: "awaits_balanced n ?tr"
    by (rule awaits_balanced_snoc [OF h(1)]) (rule piped_balanced [OF p])
  have 4: "refills ?tr" by (rule refills_snoc [OF h(2)]) simp
  have 5: "no_pull_after_false ?tr" by (rule no_pull_after_false_snoc [OF h(3)]) simp
  from n 1 2 3 4 5 show "piped n (U - {i}) q ss (ps(i := None)) ?tr"
    unfolding piped_def by simp
next
  fix U q ss ps tr i e r s'
  assume s: "shape U q ss ps tr" and p: "piped n U q ss ps tr" and i: "i \<in> U"
    and f: "ps i = Some (Returns (LEntry e))"
  let ?a = "Await i (Returns (LEntry e))"
  let ?tr = "tr @ [?a, PopAsync i]"
  from p have n: "length ss = n"
    and o: "\<And>j. outstanding j tr = (if j \<in> dom ps then 1 else 0)"
    and d: "\<And>j. j < n \<Longrightarrow> (j \<in> dom ps) = (Await j (Returns LFalse) \<notin> set tr)"
    unfolding piped_def by blast+
  from f have idom: "i \<in> dom ps" by auto
  have 1: "\<forall>j. outstanding j ?tr = (if j \<in> dom (ps(i \<mapsto> r)) then 1 else 0)"
    using o idom by (auto simp: outstanding_append)
  have 2: "\<forall>j<n. (j \<in> dom (ps(i \<mapsto> r))) = (Await j (Returns LFalse) \<notin> set ?tr)"
    using d idom by auto
  note h = piped_refill [OF s p i f]
  from n 1 2 h
  show "piped n (U - {i}) (q @ [\<lparr>logEntry = LEntry e, logSourceIndex = i\<rparr>]) (ss[i := s'])
          (ps(i \<mapsto> r)) ?tr"
    unfolding piped_def by simp
qed

lemma piped_init:
  "piped (length srcs) {..<length srcs} [] (map (\<lambda>s. snd (pop s)) srcs)
     (\<lambda>i. if i < length srcs then Some (fst (pop (srcs ! i))) else None)
     (map PopAsync [0..<length srcs])"
proof -
  let ?tr = "map PopAsync [0..<length srcs]"
  have no: "\<And>j r. Await j r \<notin> set ?tr" by auto
  from no_awaits [of ?tr, OF no] no show ?thesis
    unfolding piped_def by (auto simp: outstanding_init dom_def)
qed

text \<open>What the pipelining invariant says about the trace of a finished run.\<close>

lemma async_trace_piped:
  "awaits_balanced (length srcs) (trace (async_merge srcs)) \<and>
   refills (trace (async_merge srcs)) \<and>
   no_pull_after_false (trace (async_merge srcs))"
proof -
  let ?n = "length srcs"
  let ?Q = "\<lambda>U q ss ps tr. shape U q ss ps tr \<and> piped ?n U q ss ps tr"
  let ?r = "async_merge srcs"
  from async_merge_invariant [OF steps_piped piped_init]
  have "completed ?Q ?r \<or> aborted ?Q ?r \<or> refused srcs ?r" .
  moreover have ?thesis if "completed ?Q ?r \<or> rejected ?Q ?r"
  proof -
    from that obtain tr ev U q where t: "trace ?r = tr @ [ev]"
      and ev: "ev = Done \<or> (\<exists>i x. ev = Await i x \<and> (\<forall>v. x \<noteq> Returns v))"
      and p: "piped ?n U q (logSources ?r) (logEntryPromises ?r) tr"
      unfolding completed_def rejected_def by blast
    from p have h: "awaits_balanced ?n tr" "refills tr" "no_pull_after_false tr"
      unfolding piped_def by blast+
    have "awaits_balanced ?n (tr @ [ev])"
      by (rule awaits_balanced_snoc [OF h(1)]) (rule piped_balanced [OF p])
    moreover have "refills (tr @ [ev])"
      by (rule refills_snoc [OF h(2)]) (use ev in auto)
    moreover have "no_pull_after_false (tr @ [ev])"
      by (rule no_pull_after_false_snoc [OF h(3)]) (use ev in auto)
    ultimately show ?thesis unfolding t by simp
  qed
  moreover have ?thesis if "call_raised ?Q ?r"
  proof -
    from that obtain U q ss tr i e
      where t: "trace ?r = tr @ [Await i (Returns (LEntry e)), PopAsync i, CallRaised i]"
      and i: "i \<in> U" and f: "logEntryPromises ?r i = Some (Returns (LEntry e))"
      and s: "shape U q ss (logEntryPromises ?r) tr"
      and p: "piped ?n U q ss (logEntryPromises ?r) tr"
      unfolding call_raised_def by blast
    let ?tr = "tr @ [Await i (Returns (LEntry e)), PopAsync i]"
    note h = piped_refill [OF s p i f]
    have "awaits_balanced ?n (?tr @ [CallRaised i])"
      by (rule awaits_balanced_snoc [OF h(1)]) simp
    moreover have "refills (?tr @ [CallRaised i])"
      by (rule refills_snoc [OF h(2)]) simp
    moreover have "no_pull_after_false (?tr @ [CallRaised i])"
      by (rule no_pull_after_false_snoc [OF h(3)]) simp
    ultimately show ?thesis unfolding t by simp
  qed
  moreover have ?thesis if "refused srcs ?r"
  proof -
    from that obtain k where t: "trace ?r = map PopAsync [0..<Suc k] @ [CallRaised k]"
      unfolding refused_def by blast
    have "\<And>j r. Await j r \<notin> set (trace ?r)" unfolding t by auto
    from no_awaits [OF this] show ?thesis by blast
  qed
  ultimately show ?thesis unfolding aborted_def by blast
qed


text \<open>At no point of the trace has a source more than one fetch in flight.\<close>

definition never_two :: "event list \<Rightarrow> bool" where
  "never_two tr \<longleftrightarrow>
     (\<forall>p rest i. tr = p @ rest \<longrightarrow> 0 \<le> outstanding i p \<and> outstanding i p \<le> 1)"

lemma never_two_snoc:
  assumes "never_two tr"
    and "\<And>i. 0 \<le> outstanding i (tr @ [ev]) \<and> outstanding i (tr @ [ev]) \<le> 1"
  shows "never_two (tr @ [ev])"
  unfolding never_two_def
proof (intro allI impI)
  fix p rest i
  assume a: "tr @ [ev] = p @ rest"
  show "0 \<le> outstanding i p \<and> outstanding i p \<le> 1"
  proof (cases rest rule: rev_cases)
    case Nil
    with a assms(2) [of i] show ?thesis by simp
  next
    case (snoc rest' x)
    with a have "tr @ [ev] = (p @ rest') @ [x]" by simp
    then have "tr = p @ rest'" by (simp only: append1_eq_conv)
    with assms(1) show ?thesis unfolding never_two_def by blast
  qed
qed

lemma never_two_init: "never_two (map PopAsync [0..<n])"
  unfolding never_two_def
proof (intro allI impI)
  fix p rest i
  assume a: "map PopAsync [0..<n] = p @ rest"
  then have "p = take (length p) (map PopAsync [0..<n])" by simp
  also have "\<dots> = map PopAsync [0..<min (length p) n]"
    by (simp add: take_map take_upt min_def)
  finally have "outstanding i p = (if i < min (length p) n then 1 else 0)"
    using outstanding_init [of i "min (length p) n"] by simp
  then show "0 \<le> outstanding i p \<and> outstanding i p \<le> 1" by simp
qed

definition capped :: invariant where
  "capped U q ss ps tr \<longleftrightarrow> never_two tr"

lemma steps_capped:
  "steps_under (\<lambda>U q ss ps tr. shape U q ss ps tr \<and> piped n U q ss ps tr) capped"
proof (rule steps_underI)
  fix q ss ps tr item q'
  assume Q: "shape {} q ss ps tr \<and> piped n {} q ss ps tr" and c: "capped {} q ss ps tr"
  from Q have o: "\<And>j. outstanding j tr = (if j \<in> dom ps then 1 else 0)"
    unfolding piped_def by blast
  have "never_two (tr @ [Print (logEntry item)])"
    by (rule never_two_snoc) (use c o in \<open>simp_all add: capped_def outstanding_append\<close>)
  then show "capped {logSourceIndex item} q' ss ps (tr @ [Print (logEntry item)])"
    by (simp add: capped_def)
next
  fix U q ss ps tr i
  assume Q: "shape U q ss ps tr \<and> piped n U q ss ps tr" and c: "capped U q ss ps tr"
    and f: "ps i = Some (Returns LFalse)"
  from Q have o: "\<And>j. outstanding j tr = (if j \<in> dom ps then 1 else 0)"
    unfolding piped_def by blast
  from f have idom: "i \<in> dom ps" by auto
  have "never_two (tr @ [Await i (Returns LFalse)])"
    by (rule never_two_snoc) (use c o idom in \<open>auto simp: capped_def outstanding_append\<close>)
  then show "capped (U - {i}) q ss (ps(i := None)) (tr @ [Await i (Returns LFalse)])"
    by (simp add: capped_def)
next
  fix U q ss ps tr i e r s'
  assume Q: "shape U q ss ps tr \<and> piped n U q ss ps tr" and c: "capped U q ss ps tr"
    and f: "ps i = Some (Returns (LEntry e))"
  let ?a = "Await i (Returns (LEntry e))"
  from Q have o: "\<And>j. outstanding j tr = (if j \<in> dom ps then 1 else 0)"
    unfolding piped_def by blast
  from f have idom: "i \<in> dom ps" by auto
  have "never_two (tr @ [?a])"
    by (rule never_two_snoc) (use c o idom in \<open>auto simp: capped_def outstanding_append\<close>)
  then have "never_two ((tr @ [?a]) @ [PopAsync i])"
    by (rule never_two_snoc) (use o idom in \<open>auto simp: outstanding_append\<close>)
  then show "capped (U - {i}) (q @ [\<lparr>logEntry = LEntry e, logSourceIndex = i\<rparr>]) (ss[i := s'])
          (ps(i \<mapsto> r)) (tr @ [?a, PopAsync i])"
    by (simp add: capped_def)
qed

lemma async_trace_capped: "never_two (trace (async_merge srcs))"
proof -
  let ?n = "length srcs"
  let ?A = "\<lambda>U q ss ps tr. shape U q ss ps tr \<and> piped ?n U q ss ps tr"
  let ?Q = "\<lambda>U q ss ps tr. ?A U q ss ps tr \<and> capped U q ss ps tr"
  let ?r = "async_merge srcs"
  have st: "steps ?Q"
    by (rule steps_conj [OF steps_conj [OF steps_shape_inv steps_piped] steps_capped])
  have "?Q {..<?n} [] (map (\<lambda>s. snd (pop s)) srcs)
          (\<lambda>i. if i < ?n then Some (fst (pop (srcs ! i))) else None) (map PopAsync [0..<?n])"
    by (simp add: shape_init piped_init capped_def never_two_init)
  from async_merge_rule [OF st this]
  have "completed ?Q ?r \<or> aborted ?Q ?r \<or> refused srcs ?r" .
  moreover have ?thesis if "completed ?Q ?r"
  proof -
    from that obtain tr where t: "trace ?r = tr @ [Done]"
      and p: "piped ?n {} [] (logSources ?r) (logEntryPromises ?r) tr"
      and c: "never_two tr"
      unfolding completed_def capped_def by blast
    from p have o: "\<And>j. outstanding j tr = (if j \<in> dom (logEntryPromises ?r) then 1 else 0)"
      unfolding piped_def by blast
    have "never_two (tr @ [Done])"
      by (rule never_two_snoc [OF c]) (simp add: outstanding_append o)
    then show ?thesis by (simp add: t)
  qed
  moreover have ?thesis if "rejected ?Q ?r"
  proof -
    from that obtain U q tr i x where t: "trace ?r = tr @ [Await i x]"
      and f: "logEntryPromises ?r i = Some x"
      and p: "piped ?n U q (logSources ?r) (logEntryPromises ?r) tr"
      and c: "never_two tr"
      unfolding rejected_def capped_def by blast
    from p have o: "\<And>j. outstanding j tr = (if j \<in> dom (logEntryPromises ?r) then 1 else 0)"
      unfolding piped_def by blast
    from f have idom: "i \<in> dom (logEntryPromises ?r)" by auto
    have "never_two (tr @ [Await i x])"
      by (rule never_two_snoc [OF c]) (use o idom in \<open>auto simp: outstanding_append\<close>)
    then show ?thesis by (simp add: t)
  qed
  moreover have ?thesis if "call_raised ?Q ?r"
  proof -
    from that obtain U q ss tr i e
      where t: "trace ?r = tr @ [Await i (Returns (LEntry e)), PopAsync i, CallRaised i]"
      and f: "logEntryPromises ?r i = Some (Returns (LEntry e))"
      and p: "piped ?n U q ss (logEntryPromises ?r) tr"
      and c: "never_two tr"
      unfolding call_raised_def capped_def by blast
    let ?a = "Await i (Returns (LEntry e))"
    from p have o: "\<And>j. outstanding j tr = (if j \<in> dom (logEntryPromises ?r) then 1 else 0)"
      unfolding piped_def by blast
    from f have idom: "i \<in> dom (logEntryPromises ?r)" by auto
    have "never_two (tr @ [?a])"
      by (rule never_two_snoc [OF c]) (use o idom in \<open>auto simp: outstanding_append\<close>)
    then have "never_two ((tr @ [?a]) @ [PopAsync i])"
      by (rule never_two_snoc) (use o idom in \<open>auto simp: outstanding_append\<close>)
    then have "never_two (((tr @ [?a]) @ [PopAsync i]) @ [CallRaised i])"
      by (rule never_two_snoc) (use o idom in \<open>auto simp: outstanding_append\<close>)
    then show ?thesis by (simp add: t)
  qed
  moreover have ?thesis if "refused srcs ?r"
  proof -
    from that obtain k where t: "trace ?r = map PopAsync [0..<Suc k] @ [CallRaised k]"
      unfolding refused_def by blast
    have "never_two (map PopAsync [0..<Suc k] @ [CallRaised k])"
      by (rule never_two_snoc [OF never_two_init])
         (auto simp: outstanding_append outstanding_init simp del: upt_Suc)
    then show ?thesis by (simp only: t)
  qed
  ultimately show ?thesis unfolding aborted_def by blast
qed

text \<open>
  C6. In the pipelined engine, at every point where the run is suspended on an
  \<^verbatim>\<open>await\<close>, each source index has exactly one fetch in flight if none of its
  promises has delivered the exhaustion marker yet, and none if one has; whenever an
  awaited promise delivers an entry, the next thing the engine does to its
  collaborators is to call \<^verbatim>\<open>popAsync\<close> on the same index; and at no point of the run
  has an index more than one fetch in flight.
\<close>

theorem async_one_fetch_in_flight:
  "(\<forall>p j r rest i. trace (async_merge srcs) = p @ Await j r # rest \<longrightarrow> i < length srcs \<longrightarrow>
      outstanding i p = (if Await i (Returns LFalse) \<in> set p then 0 else 1)) \<and>
   (\<forall>p j e rest. trace (async_merge srcs) = p @ Await j (Returns (LEntry e)) # rest \<longrightarrow>
      (\<exists>rest'. rest = PopAsync j # rest')) \<and>
   (\<forall>p rest i. trace (async_merge srcs) = p @ rest \<longrightarrow>
      0 \<le> outstanding i p \<and> outstanding i p \<le> 1)"
  using async_trace_piped [of srcs] async_trace_capped [of srcs]
  unfolding awaits_balanced_def refills_def balanced_def never_two_def by blast

theorem async_one_fetch_in_flight_witness:
  "trace (async_merge [[Returns (LEntry \<lparr>date = 1, msg = ''a''\<rparr>)], []])
     = [PopAsync 0, PopAsync 1, Await 0 (Returns (LEntry \<lparr>date = 1, msg = ''a''\<rparr>)), PopAsync 0,
        Await 1 (Returns LFalse), Print (LEntry \<lparr>date = 1, msg = ''a''\<rparr>)]
       @ Await 0 (Returns LFalse) # [Done] \<and>
   outstanding 0
     [PopAsync 0, PopAsync 1, Await 0 (Returns (LEntry \<lparr>date = 1, msg = ''a''\<rparr>)), PopAsync 0,
      Await 1 (Returns LFalse), Print (LEntry \<lparr>date = 1, msg = ''a''\<rparr>)] = 1 \<and>
   outstanding 1
     [PopAsync 0, PopAsync 1, Await 0 (Returns (LEntry \<lparr>date = 1, msg = ''a''\<rparr>)), PopAsync 0,
      Await 1 (Returns LFalse), Print (LEntry \<lparr>date = 1, msg = ''a''\<rparr>)] = 0 \<and>
   trace (async_merge [[Returns (LEntry \<lparr>date = 1, msg = ''a''\<rparr>)], []])
     = [PopAsync 0, PopAsync 1] @ Await 0 (Returns (LEntry \<lparr>date = 1, msg = ''a''\<rparr>)) #
       PopAsync 0 #
       [Await 1 (Returns LFalse), Print (LEntry \<lparr>date = 1, msg = ''a''\<rparr>),
        Await 0 (Returns LFalse), Done]"
proof -
  let ?srcs = "[[Returns (LEntry \<lparr>date = 1, msg = ''a''\<rparr>)], []]"
  let ?p = "[PopAsync 0, PopAsync 1, Await 0 (Returns (LEntry \<lparr>date = 1, msg = ''a''\<rparr>)), PopAsync 0,
        Await 1 (Returns LFalse), Print (LEntry \<lparr>date = 1, msg = ''a''\<rparr>)]"
  have t: "trace (async_merge ?srcs) = ?p @ Await 0 (Returns LFalse) # [Done]"
    by code_simp
  note inv = async_one_fetch_in_flight [of ?srcs, THEN conjunct1, rule_format, OF t]
  have 0: "outstanding 0 ?p = 1" using inv [of 0] by simp
  have 1: "outstanding 1 ?p = 0" using inv [of 1] by simp
  from t 0 1 show ?thesis by simp
qed


text \<open>
  Exhaustion is final in the pipelined engine: it never calls \<^verbatim>\<open>popAsync\<close> on an
  index after a promise of that index has delivered the exhaustion marker.
\<close>

lemma async_no_pull_after_exhaustion:
  "trace (async_merge srcs) = p @ PopAsync j # rest \<Longrightarrow> Await j (Returns LFalse) \<notin> set p"
  using async_trace_piped [of srcs] unfolding no_pull_after_false_def by blast

subsection \<open>The map of promises at completion\<close>

lemma outstanding_no_pull_le: "PopAsync i \<notin> set tr \<Longrightarrow> outstanding i tr \<le> 0"
  by (induction i tr rule: outstanding.induct) auto

lemma outstanding_no_pull:
  "PopAsync i \<notin> set tr \<Longrightarrow> Await i r \<in> set tr \<Longrightarrow> outstanding i tr < 0"
proof (induction i tr rule: outstanding.induct)
  case (3 i j r' tr)
  from "3.prems"(1) have "outstanding i tr \<le> 0" by (simp add: outstanding_no_pull_le)
  with 3 show ?case by auto
qed auto

text \<open>
  C10. When the pipelined engine calls \<^verbatim>\<open>printer.done()\<close>, the map from source index to
  promise is empty, and so is the queue. Up to that call, \<^verbatim>\<open>popAsync\<close> has been called
  on every source index and every index has had a promise deliver the exhaustion
  marker, after which (the index having been deleted from the map) \<^verbatim>\<open>popAsync\<close> was
  not called on it again; and no index has a fetch in flight: for each one, every call
  of \<^verbatim>\<open>popAsync\<close> has been answered by an await.
\<close>

theorem async_done_with_empty_map:
  "status (async_merge srcs) = Completed \<longrightarrow>
     logEntryPromises (async_merge srcs) = Map.empty \<and> logEntryQueue (async_merge srcs) = [] \<and>
     (\<exists>tr. trace (async_merge srcs) = tr @ [Done] \<and> (\<forall>i. outstanding i tr = 0) \<and>
        (\<forall>i<length srcs. \<exists>p rest. tr = p @ Await i (Returns LFalse) # rest \<and>
            PopAsync i \<in> set p \<and> PopAsync i \<notin> set rest))"
proof
  let ?n = "length srcs"
  let ?Q = "\<lambda>U q ss ps tr. shape U q ss ps tr \<and> piped ?n U q ss ps tr"
  let ?r = "async_merge srcs"
  assume c: "status ?r = Completed"
  from async_merge_invariant [OF steps_piped piped_init]
  have "completed ?Q ?r \<or> aborted ?Q ?r \<or> refused srcs ?r" .
  with c have "completed ?Q ?r" by (auto simp: aborted_def refused_def)
  then obtain tr where qe: "logEntryQueue ?r = []" and t: "trace ?r = tr @ [Done]"
    and s: "shape {} [] (logSources ?r) (logEntryPromises ?r) tr"
    and p: "piped ?n {} [] (logSources ?r) (logEntryPromises ?r) tr"
    unfolding completed_def by blast
  from s have d: "dom (logEntryPromises ?r) = {}" by (simp add: shape_def)
  from p d have o: "\<And>i. outstanding i tr = 0"
    and a: "\<And>i. i < ?n \<Longrightarrow> Await i (Returns LFalse) \<in> set tr"
    and np: "no_pull_after_false tr"
    unfolding piped_def by auto
  have "\<exists>p rest. tr = p @ Await i (Returns LFalse) # rest \<and>
          PopAsync i \<in> set p \<and> PopAsync i \<notin> set rest" if "i < ?n" for i
  proof -
    from split_list [OF a [OF that]] obtain p rest
      where sp: "tr = p @ Await i (Returns LFalse) # rest" by blast
    have nr: "PopAsync i \<notin> set rest"
    proof
      assume "PopAsync i \<in> set rest"
      from split_list [OF this] obtain r1 r2 where "rest = r1 @ PopAsync i # r2" by blast
      with sp have "tr = (p @ Await i (Returns LFalse) # r1) @ PopAsync i # r2" by simp
      with np have "Await i (Returns LFalse) \<notin> set (p @ Await i (Returns LFalse) # r1)"
        unfolding no_pull_after_false_def by blast
      then show False by simp
    qed
    have "PopAsync i \<in> set tr"
      using outstanding_no_pull [of i tr "Returns LFalse"] a [OF that] o [of i] by force
    with sp nr have "PopAsync i \<in> set p" by auto
    with sp nr show ?thesis by blast
  qed
  with d qe t o show "logEntryPromises ?r = Map.empty \<and> logEntryQueue ?r = [] \<and>
     (\<exists>tr. trace ?r = tr @ [Done] \<and> (\<forall>i. outstanding i tr = 0) \<and>
        (\<forall>i<?n. \<exists>p rest. tr = p @ Await i (Returns LFalse) # rest \<and>
            PopAsync i \<in> set p \<and> PopAsync i \<notin> set rest))"
    by auto
qed

theorem async_done_with_empty_map_witness:
  "status (async_merge [[Returns (LEntry \<lparr>date = 1, msg = ''a''\<rparr>)], []]) = Completed \<and>
   trace (async_merge [[Returns (LEntry \<lparr>date = 1, msg = ''a''\<rparr>)], []])
     = [PopAsync 0, PopAsync 1, Await 0 (Returns (LEntry \<lparr>date = 1, msg = ''a''\<rparr>)),
        PopAsync 0, Await 1 (Returns LFalse), Print (LEntry \<lparr>date = 1, msg = ''a''\<rparr>),
        Await 0 (Returns LFalse)] @ [Done] \<and>
   logEntryPromises (async_merge [[Returns (LEntry \<lparr>date = 1, msg = ''a''\<rparr>)], []]) = Map.empty \<and>
   logEntryQueue (async_merge [[Returns (LEntry \<lparr>date = 1, msg = ''a''\<rparr>)], []]) = [] \<and>
   outstanding 0
     [PopAsync 0, PopAsync 1, Await 0 (Returns (LEntry \<lparr>date = 1, msg = ''a''\<rparr>)),
      PopAsync 0, Await 1 (Returns LFalse), Print (LEntry \<lparr>date = 1, msg = ''a''\<rparr>),
      Await 0 (Returns LFalse)] = 0 \<and>
   outstanding 1
     [PopAsync 0, PopAsync 1, Await 0 (Returns (LEntry \<lparr>date = 1, msg = ''a''\<rparr>)),
      PopAsync 0, Await 1 (Returns LFalse), Print (LEntry \<lparr>date = 1, msg = ''a''\<rparr>),
      Await 0 (Returns LFalse)] = 0"
proof -
  let ?srcs = "[[Returns (LEntry \<lparr>date = 1, msg = ''a''\<rparr>)], []]"
  let ?tr = "[PopAsync 0, PopAsync 1, Await 0 (Returns (LEntry \<lparr>date = 1, msg = ''a''\<rparr>)),
        PopAsync 0, Await 1 (Returns LFalse), Print (LEntry \<lparr>date = 1, msg = ''a''\<rparr>),
        Await 0 (Returns LFalse)]"
  have c: "status (async_merge ?srcs) = Completed" by code_simp
  have t: "trace (async_merge ?srcs) = ?tr @ [Done]" by code_simp
  from async_done_with_empty_map [of ?srcs, rule_format, OF c]
  have m: "logEntryPromises (async_merge ?srcs) = Map.empty"
    and q: "logEntryQueue (async_merge ?srcs) = []"
    and "\<exists>tr. trace (async_merge ?srcs) = tr @ [Done] \<and> (\<forall>i. outstanding i tr = 0)"
    by blast+
  then obtain tr where "trace (async_merge ?srcs) = tr @ [Done]"
    and o: "\<And>i. outstanding i tr = 0" by blast
  with t have "tr = ?tr" by simp
  with o have "outstanding 0 ?tr = 0" and "outstanding 1 ?tr = 0" by blast+
  with c t m q show ?thesis by simp
qed

section \<open>A pull that raises ends the run\<close>

text \<open>
  A trace is clean when no call in it has raised and \<^verbatim>\<open>printer.done()\<close> has not been
  called. A run that is over has a clean trace followed by the one event that ended
  it.
\<close>

definition clean :: "event list \<Rightarrow> bool" where
  "clean tr \<longleftrightarrow> (\<forall>ev\<in>set tr. \<not> raised ev \<and> ev \<noteq> Done)"

definition ended :: "status \<Rightarrow> event list \<Rightarrow> bool" where
  "ended s tr \<longleftrightarrow>
     (case s of
        Running \<Rightarrow> clean tr
      | TypeError \<Rightarrow> clean tr
      | Completed \<Rightarrow> (\<exists>p. tr = p @ [Done] \<and> clean p)
      | Threw \<Rightarrow> (\<exists>p ev. tr = p @ [ev] \<and> raised ev \<and> clean p))"

lemma ended_raised:
  assumes "ended s tr" and "raised ev" and "ev \<in> set tr"
  shows "s = Threw \<and> Done \<notin> set tr \<and>
         (\<exists>p. tr = p @ [ev] \<and> (\<forall>x\<in>set p. \<not> raised x) \<and> emitted tr = emitted p)"
proof (cases s)
  case Running
  with assms show ?thesis by (auto simp: ended_def clean_def)
next
  case TypeError
  with assms show ?thesis by (auto simp: ended_def clean_def)
next
  case Completed
  with assms(1) obtain p where "tr = p @ [Done]" and "clean p"
    by (auto simp: ended_def)
  with assms(2,3) show ?thesis by (auto simp: clean_def)
next
  case Threw
  with assms(1) obtain p x where t: "tr = p @ [x]" and x: "raised x" and c: "clean p"
    by (auto simp: ended_def)
  from assms(2,3) t c have e: "ev = x" by (auto simp: clean_def)
  have "x \<noteq> Done" using x by auto
  moreover have "emitted [x] = []" using x by (cases x rule: raised.cases) auto
  ultimately show ?thesis using Threw t c e by (auto simp: clean_def emitted_append)
qed

subsection \<open>The blocking engine\<close>

lemma sync_reduce_ended:
  "clean (trace st) \<Longrightarrow> sync_reduce js es st = (es', st') \<Longrightarrow> status st = Running \<Longrightarrow>
   ended (status st') (trace st')"
proof (induction js arbitrary: es st)
  case Nil
  then show ?case by (simp add: ended_def)
next
  case (Cons index rest)
  obtain r s' where p: "pop (logSources st ! index) = (r, s')"
    by (cases "pop (logSources st ! index)")
  show ?case
  proof (cases r)
    case Throws
    with Cons.prems(2) p
    have "st' = st\<lparr>logSources := (logSources st)[index := s'],
                     trace := trace st @ [Pop index Throws], status := Threw\<rparr>"
      by simp
    with Cons.prems(1) show ?thesis by (auto simp: ended_def)
  next
    case ThrowsAtCall
    with Cons.prems(2) p
    have "st' = st\<lparr>logSources := (logSources st)[index := s'],
                     trace := trace st @ [Pop index ThrowsAtCall], status := Threw\<rparr>"
      by simp
    with Cons.prems(1) show ?thesis by (auto simp: ended_def)
  next
    case (Returns v)
    let ?es = "if v = LFalse then es @ [\<lparr>logEntry = v, logSourceIndex = index\<rparr>] else es"
    let ?st = "st\<lparr>logSources := (logSources st)[index := s'],
                  trace := trace st @ [Pop index (Returns v)]\<rparr>"
    from Cons.prems(2) p Returns have run: "sync_reduce rest ?es ?st = (es', st')"
      by simp
    have "clean (trace ?st)" using Cons.prems(1) by (simp add: clean_def)
    from Cons.IH [OF this run] Cons.prems(3) show ?thesis by simp
  qed
qed

lemma sync_body_ended:
  assumes "clean (trace st)" and "status st = Running"
  shows "ended (status (sync_body item q' st)) (trace (sync_body item q' st))"
proof -
  let ?i = "logSourceIndex item"
  let ?tr = "trace st @ [Print (logEntry item)]"
  have c: "clean ?tr" using assms(1) by (simp add: clean_def)
  show ?thesis
  proof (cases "length (logSources st) \<le> ?i")
    case True
    with c assms(2) show ?thesis by (simp add: sync_body_def Let_def ended_def)
  next
    case False
    obtain r s' where p: "pop (logSources st ! ?i) = (r, s')"
      by (cases "pop (logSources st ! ?i)")
    show ?thesis
    proof (cases r)
      case Throws
      with False p c show ?thesis
        by (auto simp: sync_body_def Let_def ended_def)
    next
      case ThrowsAtCall
      with False p c show ?thesis
        by (auto simp: sync_body_def Let_def ended_def)
    next
      case (Returns v)
      have "clean (?tr @ [Pop ?i (Returns v)])" using c by (simp add: clean_def)
      with False p Returns assms(2) show ?thesis
        by (simp add: sync_body_def Let_def ended_def)
    qed
  qed
qed

lemma sync_loop_ended:
  "clean (trace st) \<Longrightarrow> status st = Running \<Longrightarrow>
   ended (status (sync_loop fuel st)) (trace (sync_loop fuel st))"
proof (induction fuel arbitrary: st)
  case 0
  then show ?case by (simp add: ended_def)
next
  case (Suc fuel)
  show ?case
  proof (cases "pq_pop (logEntryQueue st)")
    case None
    with Suc.prems show ?thesis by (simp add: ended_def)
  next
    case (Some p)
    obtain item q' where p: "p = (item, q')" by (cases p)
    let ?st = "sync_body item q' st"
    have e: "ended (status ?st) (trace ?st)"
      by (rule sync_body_ended [OF Suc.prems])
    show ?thesis
    proof (cases "status ?st = Running")
      case True
      with e have "clean (trace ?st)" by (simp add: ended_def)
      from Suc.IH [OF this True] Some p True show ?thesis by (simp add: Let_def)
    next
      case False
      with e Some p show ?thesis by (simp add: Let_def)
    qed
  qed
qed

lemma sync_merge_ended:
  "ended (status (sync_merge fuel srcs)) (trace (sync_merge fuel srcs))"
proof -
  obtain es st where r: "sync_reduce [0..<length srcs] [] (sync_start srcs) = (es, st)"
    by (cases "sync_reduce [0..<length srcs] [] (sync_start srcs)")
  have e: "ended (status st) (trace st)"
    by (rule sync_reduce_ended [OF _ r]) (simp_all add: sync_start_def clean_def)
  show ?thesis
  proof (cases "status st = Running")
    case True
    with e have "clean (trace (st\<lparr>logEntryQueue := pq_build es\<rparr>))"
      by (simp add: ended_def)
    from sync_loop_ended [OF this, of fuel] r True show ?thesis
      by (simp add: sync_merge_def)
  next
    case False
    with e r show ?thesis by (simp add: sync_merge_def)
  qed
qed

subsection \<open>The pipelined engine\<close>

definition unraised :: invariant where
  "unraised U q ss ps tr \<longleftrightarrow> clean tr"

lemma steps_unraised: "steps_under shape unraised"
  by (rule steps_underI) (simp_all add: unraised_def clean_def)

lemma raised_await: "(\<forall>v. x \<noteq> Returns v) \<Longrightarrow> raised (Await i x)"
  by (cases x) simp_all

lemma async_merge_ended:
  "ended (status (async_merge srcs)) (trace (async_merge srcs))"
proof -
  let ?Q = "\<lambda>U q ss ps tr. shape U q ss ps tr \<and> unraised U q ss ps tr"
  let ?r = "async_merge srcs"
  have "unraised {..<length srcs} [] (map (\<lambda>s. snd (pop s)) srcs)
     (\<lambda>i. if i < length srcs then Some (fst (pop (srcs ! i))) else None)
     (map PopAsync [0..<length srcs])"
    by (auto simp: unraised_def clean_def)
  from async_merge_invariant [OF steps_unraised this]
  have "completed ?Q ?r \<or> aborted ?Q ?r \<or> refused srcs ?r" .
  moreover have ?thesis if "completed ?Q ?r"
    using that by (auto simp: completed_def unraised_def ended_def)
  moreover have ?thesis if "status ?r = Threw" and "rejected ?Q ?r"
  proof -
    from that(2) obtain tr i x where "trace ?r = tr @ [Await i x]"
      and "\<forall>v. x \<noteq> Returns v" and "clean tr"
      unfolding rejected_def unraised_def by blast
    with that(1) raised_await [of x i] show ?thesis by (auto simp: ended_def)
  qed
  moreover have ?thesis if "status ?r = Threw" and "call_raised ?Q ?r"
  proof -
    from that(2) obtain tr i e
      where t: "trace ?r = tr @ [Await i (Returns (LEntry e)), PopAsync i, CallRaised i]"
      and c: "clean tr"
      unfolding call_raised_def unraised_def by blast
    from c have "clean (tr @ [Await i (Returns (LEntry e)), PopAsync i])"
      by (simp add: clean_def)
    moreover have "trace ?r = (tr @ [Await i (Returns (LEntry e)), PopAsync i]) @ [CallRaised i]"
      by (simp add: t)
    ultimately show ?thesis using that(1) unfolding ended_def by (simp; blast)
  qed
  moreover have ?thesis if "refused srcs ?r"
  proof -
    from that obtain k where s: "status ?r = Threw"
      and t: "trace ?r = map PopAsync [0..<Suc k] @ [CallRaised k]"
      unfolding refused_def by blast
    have "clean (map PopAsync [0..<Suc k])" by (auto simp: clean_def)
    with s t show ?thesis unfolding ended_def by (simp; blast)
  qed
  ultimately show ?thesis unfolding aborted_def by blast
qed


text \<open>
  Every promise that is awaited was handed back by a call: a call that raised has left
  nothing in the map.
\<close>

definition made :: invariant where
  "made U q ss ps tr \<longleftrightarrow>
     (\<forall>i. ps i \<noteq> Some ThrowsAtCall) \<and> (\<forall>i. Await i ThrowsAtCall \<notin> set tr)"

lemma steps_made: "steps_under shape made"
  by (rule steps_underI) (auto simp: made_def)

lemma async_awaits_promises_made: "Await i ThrowsAtCall \<notin> set (trace (async_merge srcs))"
proof -
  let ?Q = "\<lambda>U q ss ps tr. shape U q ss ps tr \<and> made U q ss ps tr"
  let ?r = "async_merge srcs"
  have init: "made {..<length srcs} [] (map (\<lambda>s. snd (pop s)) srcs)
     (\<lambda>i. if i < length srcs then Some (fst (pop (srcs ! i))) else None)
     (map PopAsync [0..<length srcs])" if "\<forall>i<length srcs. willing (srcs ! i)"
    using that by (auto simp: made_def willing_def)
  from async_merge_invariant [OF steps_made init]
  have "completed ?Q ?r \<or> aborted ?Q ?r \<or> refused srcs ?r" .
  moreover have ?thesis if "completed ?Q ?r"
    using that by (auto simp: completed_def made_def)
  moreover have ?thesis if "rejected ?Q ?r"
    using that by (auto simp: rejected_def made_def)
  moreover have ?thesis if "call_raised ?Q ?r"
    using that by (auto simp: call_raised_def made_def)
  moreover have ?thesis if "refused srcs ?r"
    using that by (auto simp: refused_def)
  ultimately show ?thesis unfolding aborted_def by blast
qed

text \<open>
  A source that yields the entry \<open>e\<close> and whose second call of \<^verbatim>\<open>popAsync\<close> raises:
  the run ends at that call, which comes before \<open>e\<close> is printed.
\<close>

lemma async_call_raised_example:
  "status (async_merge [[Returns (LEntry e), ThrowsAtCall]]) = Threw \<and>
   trace (async_merge [[Returns (LEntry e), ThrowsAtCall]])
     = [PopAsync 0, Await 0 (Returns (LEntry e)), PopAsync 0, CallRaised 0] \<and>
   emitted (trace (async_merge [[Returns (LEntry e), ThrowsAtCall]])) = []"
  by (simp add: async_unfold)

section \<open>What the sources still have to give\<close>

text \<open>
  What index \<open>i\<close> will still deliver to the pipelined engine: the outcome of the
  promise in flight, then the outcomes its source has left. \<open>upcoming\<close> are the entries
  among them that come before exhaustion, and an index is \<open>doomed\<close> when a failure
  comes before exhaustion.
\<close>

definition future :: "log_source list \<Rightarrow> (nat \<rightharpoonup> outcome) \<Rightarrow> nat \<Rightarrow> log_source" where
  "future ss ps i = (case ps i of None \<Rightarrow> [] | Some r \<Rightarrow> r # ss ! i)"

definition upcoming :: "log_source list \<Rightarrow> (nat \<rightharpoonup> outcome) \<Rightarrow> nat \<Rightarrow> log_entry list" where
  "upcoming ss ps i = produced (future ss ps i)"

definition doomed :: "log_source list \<Rightarrow> (nat \<rightharpoonup> outcome) \<Rightarrow> nat \<Rightarrow> bool" where
  "doomed ss ps i = fails (future ss ps i)"

fun the_entry :: "log_value \<Rightarrow> log_entry" where
  "the_entry (LEntry e) = e"
| "the_entry LFalse = \<lparr>date = 0, msg = []\<rparr>"

definition stamp :: "ranked \<Rightarrow> int" where
  "stamp r = date (the_entry (logEntry r))"

lemma pop_produced:
  assumes "pop s = (r, s')"
  shows "produced (r # s') = produced s" and "fails (r # s') = fails s"
  using assms by (cases s; auto)+

lemma future_false:
  assumes "ps i = Some (Returns LFalse)"
  shows "upcoming ss (ps(i := None)) j = upcoming ss ps j"
    and "doomed ss (ps(i := None)) j = doomed ss ps j"
  using assms by (auto simp: upcoming_def doomed_def future_def)

lemma future_entry:
  assumes "ps i = Some (Returns (LEntry e))" and "pop (ss ! i) = (r, s')" and "i < length ss"
  shows "upcoming (ss[i := s']) (ps(i \<mapsto> r)) j = (if j = i then produced (ss ! i) else upcoming ss ps j)"
    and "upcoming ss ps i = e # produced (ss ! i)"
    and "doomed (ss[i := s']) (ps(i \<mapsto> r)) j = doomed ss ps j"
  using assms pop_produced [OF assms(2)]
  by (auto simp: upcoming_def doomed_def future_def split: option.splits)

lemma future_init:
  assumes "i < length srcs"
  shows "upcoming (map (\<lambda>s. snd (pop s)) srcs)
           (\<lambda>i. if i < length srcs then Some (fst (pop (srcs ! i))) else None) i
         = produced (srcs ! i)"
    and "doomed (map (\<lambda>s. snd (pop s)) srcs)
           (\<lambda>i. if i < length srcs then Some (fst (pop (srcs ! i))) else None) i
         = fails (srcs ! i)"
  using assms pop_produced [of "srcs ! i" "fst (pop (srcs ! i))" "snd (pop (srcs ! i))"]
  by (simp_all add: upcoming_def doomed_def future_def)

lemma future_absent:
  assumes "ps i = None"
  shows "upcoming ss ps i = []" and "\<not> doomed ss ps i"
  using assms by (simp_all add: upcoming_def doomed_def future_def)

lemma sum_exchange:
  fixes F G :: "nat \<Rightarrow> 'a multiset"
  assumes "i < n" and "\<And>j. j \<noteq> i \<Longrightarrow> G j = F j"
  shows "(\<Sum>j<n. F j) + G i = (\<Sum>j<n. G j) + F i"
proof -
  have i: "i \<in> {..<n}" using assms(1) by simp
  have "(\<Sum>j\<in>{..<n} - {i}. G j) = (\<Sum>j\<in>{..<n} - {i}. F j)"
    by (rule sum.cong) (use assms(2) in auto)
  then show ?thesis
    by (simp add: sum.remove [OF _ i] add_ac)
qed

subsection \<open>Nothing is lost and nothing fails\<close>

text \<open>
  What has been printed, what is queued and what is still to come add up to what the
  sources produce; only entries are queued and printed, and no failure is to come.
\<close>

definition accounted :: "log_source list \<Rightarrow> invariant" where
  "accounted srcs U q ss ps tr \<longleftrightarrow>
     length ss = length srcs \<and>
     (\<forall>r\<in>set q. logEntry r \<noteq> LFalse) \<and> LFalse \<notin> set (emitted tr) \<and>
     (\<forall>i<length srcs. \<not> doomed ss ps i) \<and>
     mset (map the_entry (emitted tr)) + image_mset (\<lambda>r. the_entry (logEntry r)) (mset q) +
       (\<Sum>i<length srcs. mset (upcoming ss ps i))
     = (\<Sum>i<length srcs. mset (produced (srcs ! i)))"

lemma steps_accounted: "steps_under shape (accounted srcs)"
proof (rule steps_underI)
  fix q ss ps tr item q'
  assume a: "accounted srcs {} q ss ps tr" and p: "pq_pop q = Some (item, q')"
  from pq_pop_remove1 [OF p] have m: "item \<in> set q" and q': "set q' \<subseteq> set q"
    using set_remove1_subset [of item q] by auto
  from a m have "logEntry item \<noteq> LFalse" unfolding accounted_def by blast
  with a q' show "accounted srcs {logSourceIndex item} q' ss ps (tr @ [Print (logEntry item)])"
    unfolding accounted_def pq_pop_mset [OF p] by (auto simp: emitted_append)
next
  fix U q ss ps tr i
  assume a: "accounted srcs U q ss ps tr" and f: "ps i = Some (Returns LFalse)"
  then show "accounted srcs (U - {i}) q ss (ps(i := None)) (tr @ [Await i (Returns LFalse)])"
    unfolding accounted_def
    by (simp add: future_false [where ps = ps and i = i, OF f] emitted_append)
next
  fix U q ss ps tr i e r s'
  assume s: "shape U q ss ps tr" and a: "accounted srcs U q ss ps tr" and i: "i \<in> U"
    and f: "ps i = Some (Returns (LEntry e))" and p: "pop (ss ! i) = (r, s')"
  let ?n = "length srcs"
  from a have len: "length ss = ?n" unfolding accounted_def by blast
  from s i len have il: "i < ?n" and il': "i < length ss" unfolding shape_def by auto
  note fe = future_entry [where ps = ps and i = i, OF f p il']
  have "(\<Sum>j<?n. mset (upcoming ss ps j)) + mset (upcoming (ss[i := s']) (ps(i \<mapsto> r)) i)
      = (\<Sum>j<?n. mset (upcoming (ss[i := s']) (ps(i \<mapsto> r)) j)) + mset (upcoming ss ps i)"
    by (rule sum_exchange [OF il]) (simp add: fe(1))
  then have sum: "(\<Sum>j<?n. mset (upcoming ss ps j))
      = (\<Sum>j<?n. mset (upcoming (ss[i := s']) (ps(i \<mapsto> r)) j)) + {#e#}"
    by (simp add: fe(1,2))
  from a show "accounted srcs (U - {i}) (q @ [\<lparr>logEntry = LEntry e, logSourceIndex = i\<rparr>])
          (ss[i := s']) (ps(i \<mapsto> r)) (tr @ [Await i (Returns (LEntry e)), PopAsync i])"
    unfolding accounted_def by (simp add: fe(3) emitted_append sum)
qed

lemma accounted_init:
  assumes "\<forall>s\<in>set srcs. \<not> fails s"
  shows "accounted srcs {..<length srcs} [] (map (\<lambda>s. snd (pop s)) srcs)
     (\<lambda>i. if i < length srcs then Some (fst (pop (srcs ! i))) else None)
     (map PopAsync [0..<length srcs])"
proof -
  have "emitted (map PopAsync [0..<n]) = []" for n
    by (induction n) (simp_all add: emitted_append)
  with assms show ?thesis
    unfolding accounted_def by (simp add: future_init)
qed

text \<open>Some index is doomed: this too survives every move.\<close>

definition ill :: invariant where
  "ill U q ss ps tr \<longleftrightarrow> (\<exists>i. doomed ss ps i)"

lemma steps_ill: "steps_under shape ill"
proof (rule steps_underI)
  fix q ss ps tr item q'
  assume "ill {} q ss ps tr"
  then show "ill {logSourceIndex item} q' ss ps (tr @ [Print (logEntry item)])"
    by (simp add: ill_def)
next
  fix U q ss ps tr i
  assume "ill U q ss ps tr" and f: "ps i = Some (Returns LFalse)"
  then show "ill (U - {i}) q ss (ps(i := None)) (tr @ [Await i (Returns LFalse)])"
    by (simp add: ill_def future_false [where ps = ps and i = i, OF f])
next
  fix U q ss ps tr i e r s'
  assume s: "shape U q ss ps tr" and "ill U q ss ps tr" and i: "i \<in> U"
    and f: "ps i = Some (Returns (LEntry e))" and p: "pop (ss ! i) = (r, s')"
  from s i have il: "i < length ss" unfolding shape_def by auto
  from \<open>ill U q ss ps tr\<close>
  show "ill (U - {i}) (q @ [\<lparr>logEntry = LEntry e, logSourceIndex = i\<rparr>]) (ss[i := s'])
          (ps(i \<mapsto> r)) (tr @ [Await i (Returns (LEntry e)), PopAsync i])"
    by (simp add: ill_def future_entry [where ps = ps and i = i, OF f p il])
qed

lemma async_failing_source_aborts:
  assumes "\<exists>s\<in>set srcs. fails s"
  shows "status (async_merge srcs) = Threw"
proof -
  let ?Q = "\<lambda>U q ss ps tr. shape U q ss ps tr \<and> ill U q ss ps tr"
  let ?r = "async_merge srcs"
  from assms obtain i where i: "i < length srcs" and f: "fails (srcs ! i)"
    by (auto simp: in_set_conv_nth)
  have "ill {..<length srcs} [] (map (\<lambda>s. snd (pop s)) srcs)
     (\<lambda>i. if i < length srcs then Some (fst (pop (srcs ! i))) else None)
     (map PopAsync [0..<length srcs])"
    unfolding ill_def using f future_init(2) [OF i] by blast
  from async_merge_invariant [OF steps_ill this]
  have "completed ?Q ?r \<or> aborted ?Q ?r \<or> refused srcs ?r" .
  moreover have "\<not> completed ?Q ?r"
  proof
    assume "completed ?Q ?r"
    then obtain tr where s: "shape {} [] (logSources ?r) (logEntryPromises ?r) tr"
      and d: "ill {} [] (logSources ?r) (logEntryPromises ?r) tr"
      unfolding completed_def by blast
    from s have "logEntryPromises ?r j = None" for j unfolding shape_def by auto
    then have "\<not> doomed (logSources ?r) (logEntryPromises ?r) j" for j
      by (simp add: doomed_def future_def)
    with d show False by (simp add: ill_def)
  qed
  ultimately show ?thesis by (auto simp: aborted_def refused_def)
qed

text \<open>
  When no source fails, no promise is rejected and no call raises: the run cannot end
  by an error.
\<close>

lemma pop_raises_fails: "pop s = (ThrowsAtCall, s') \<Longrightarrow> fails s"
  by (cases s) auto

lemma unwilling_fails: "\<not> willing s \<Longrightarrow> fails s"
  unfolding willing_def by (cases s) auto

lemma accounted_not_aborted:
  assumes imp: "\<And>U q ss ps tr. Q U q ss ps tr \<Longrightarrow>
                  shape U q ss ps tr \<and> accounted srcs U q ss ps tr"
  shows "\<not> aborted Q r"
proof
  assume "aborted Q r"
  then consider "rejected Q r" | "call_raised Q r" unfolding aborted_def by blast
  then show False
  proof cases
    case 1
    then obtain U q tr i x where i: "i \<in> U" and t: "logEntryPromises r i = Some x"
      and x: "\<forall>v. x \<noteq> Returns v" and Q: "Q U q (logSources r) (logEntryPromises r) tr"
      unfolding rejected_def by blast
    from imp [OF Q] have s: "shape U q (logSources r) (logEntryPromises r) tr"
      and a: "accounted srcs U q (logSources r) (logEntryPromises r) tr" by blast+
    from s i a have "i < length srcs" unfolding shape_def accounted_def by auto
    with a have "\<not> doomed (logSources r) (logEntryPromises r) i"
      unfolding accounted_def by blast
    with t x show False by (cases x) (simp_all add: doomed_def future_def)
  next
    case 2
    then obtain U q ss tr i e s' where i: "i \<in> U"
      and t: "logEntryPromises r i = Some (Returns (LEntry e))"
      and p: "pop (ss ! i) = (ThrowsAtCall, s')" and Q: "Q U q ss (logEntryPromises r) tr"
      unfolding call_raised_def by blast
    from imp [OF Q] have s: "shape U q ss (logEntryPromises r) tr"
      and a: "accounted srcs U q ss (logEntryPromises r) tr" by blast+
    from s i a have "i < length srcs" unfolding shape_def accounted_def by auto
    with a have "\<not> doomed ss (logEntryPromises r) i"
      unfolding accounted_def by blast
    with t pop_raises_fails [OF p] show False by (simp add: doomed_def future_def)
  qed
qed

lemma sound_not_refused:
  assumes "\<forall>s\<in>set srcs. \<not> fails s"
  shows "\<not> refused srcs r"
proof
  assume "refused srcs r"
  then obtain k where "k < length srcs" and "\<not> willing (srcs ! k)"
    unfolding refused_def by blast
  with assms unwilling_fails [of "srcs ! k"] show False by auto
qed

text \<open>
  The pipelined engine terminates. When no source fails it ends with a single call of
  \<^verbatim>\<open>printer.done()\<close>, as the last thing it does; with no sources at all, either
  engine calls it at once.
\<close>

lemma async_completes:
  assumes "\<forall>s\<in>set srcs. \<not> fails s"
  shows "status (async_merge srcs) = Completed \<and>
         (\<exists>tr. trace (async_merge srcs) = tr @ [Done] \<and> Done \<notin> set tr)"
proof -
  let ?Q = "\<lambda>U q ss ps tr. shape U q ss ps tr \<and> accounted srcs U q ss ps tr"
  let ?r = "async_merge srcs"
  from async_merge_invariant [OF steps_accounted accounted_init [OF assms]]
  have "completed ?Q ?r \<or> aborted ?Q ?r \<or> refused srcs ?r" .
  moreover have "\<not> aborted ?Q ?r"
    by (rule accounted_not_aborted [where srcs = srcs]) simp
  moreover note sound_not_refused [OF assms, of ?r]
  ultimately have c: "status ?r = Completed" by (auto simp: completed_def)
  with async_merge_ended [of srcs] show ?thesis
    by (auto simp: ended_def clean_def)
qed

lemma async_merge_no_sources:
  "async_merge [] =
     \<lparr>logSources = [], logEntryQueue = [], trace = [Done], status = Completed,
      logEntryPromises = Map.empty\<rparr>"
  by (simp add: async_unfold)

lemma sync_merge_no_sources:
  "sync_merge (Suc fuel) [] =
     \<lparr>logSources = [], logEntryQueue = [], trace = [Done], status = Completed\<rparr>"
  by (simp add: sync_unfold)


text \<open>
  In either engine, a call that raises or an awaited promise that rejects is the last
  event of the run: the source is not pulled again, nothing is printed afterwards, no
  earlier call has raised, and \<^verbatim>\<open>printer.done()\<close> is never called. Moreover the pipelined
  engine cannot complete when a source fails before it is exhausted.
\<close>

lemma raised_call_ends_run:
  "(\<forall>ev. raised ev \<longrightarrow> ev \<in> set (trace (sync_merge fuel srcs)) \<longrightarrow>
      status (sync_merge fuel srcs) = Threw \<and> Done \<notin> set (trace (sync_merge fuel srcs)) \<and>
      (\<exists>p. trace (sync_merge fuel srcs) = p @ [ev] \<and> (\<forall>x\<in>set p. \<not> raised x) \<and>
           emitted (trace (sync_merge fuel srcs)) = emitted p)) \<and>
   (\<forall>ev. raised ev \<longrightarrow> ev \<in> set (trace (async_merge srcs')) \<longrightarrow>
      status (async_merge srcs') = Threw \<and> Done \<notin> set (trace (async_merge srcs')) \<and>
      (\<exists>p. trace (async_merge srcs') = p @ [ev] \<and> (\<forall>x\<in>set p. \<not> raised x) \<and>
           emitted (trace (async_merge srcs')) = emitted p)) \<and>
   ((\<exists>s\<in>set srcs'. fails s) \<longrightarrow>
      status (async_merge srcs') = Threw \<and> Done \<notin> set (trace (async_merge srcs')))"
proof -
  have "status (async_merge srcs') = Threw \<and> Done \<notin> set (trace (async_merge srcs'))"
    if "\<exists>s\<in>set srcs'. fails s"
  proof -
    from async_failing_source_aborts [OF that] have t: "status (async_merge srcs') = Threw" .
    with async_merge_ended [of srcs'] obtain p ev
      where "trace (async_merge srcs') = p @ [ev]" and "raised ev" and "clean p"
      by (auto simp: ended_def)
    then have "Done \<notin> set (trace (async_merge srcs'))"
      by (auto simp: clean_def)
    with t show ?thesis by simp
  qed
  with ended_raised [OF sync_merge_ended] ended_raised [OF async_merge_ended]
  show ?thesis by blast
qed


section \<open>The pipelined engine merges\<close>

lemma negative_cmp_stamp:
  assumes "logEntry a \<noteq> LFalse" and "logEntry b \<noteq> LFalse"
  shows "negative (date_cmp a b) = (stamp a < stamp b)"
  using assms
  by (cases "logEntry a"; cases "logEntry b")
     (simp_all add: date_cmp_def negative_def stamp_def to_double_sign)

lemma pq_min_least:
  assumes "\<forall>r\<in>set (b # ys). logEntry r \<noteq> LFalse"
  shows "stamp (pq_min b ys) \<le> stamp b \<and> (\<forall>y\<in>set ys. stamp (pq_min b ys) \<le> stamp y)"
  using assms
proof (induction ys arbitrary: b)
  case Nil
  show ?case by simp
next
  case (Cons y ys)
  let ?b = "if negative (date_cmp y b) then y else b"
  have n: "negative (date_cmp y b) = (stamp y < stamp b)"
    by (rule negative_cmp_stamp) (use Cons.prems in auto)
  have "\<forall>r\<in>set (?b # ys). logEntry r \<noteq> LFalse" using Cons.prems by auto
  from Cons.IH [OF this]
  have "stamp (pq_min ?b ys) \<le> stamp ?b" and "\<forall>z\<in>set ys. stamp (pq_min ?b ys) \<le> stamp z"
    by blast+
  moreover have "stamp ?b \<le> stamp b" and "stamp ?b \<le> stamp y" using n by auto
  ultimately show ?case by auto
qed

lemma pq_pop_least:
  assumes "pq_pop q = Some (m, q')" and "\<forall>r\<in>set q. logEntry r \<noteq> LFalse"
  shows "\<forall>r\<in>set q. stamp m \<le> stamp r"
proof -
  from assms(1) obtain x xs where q: "q = x # xs" by (cases q) auto
  from assms(1) q have m: "m = pq_min x xs"
    by (auto simp add: Let_def simp del: remove1.simps)
  from pq_min_least [of x xs] assms(2) q m show ?thesis by auto
qed

subsection \<open>Entries with the same timestamp\<close>

text \<open>Giving the sources other numbers.\<close>

definition reindex :: "(nat \<Rightarrow> nat) \<Rightarrow> ranked \<Rightarrow> ranked" where
  "reindex f r = r\<lparr>logSourceIndex := f (logSourceIndex r)\<rparr>"

lemma date_cmp_reindex: "date_cmp (reindex f a) (reindex g b) = date_cmp a b"
  by (simp add: date_cmp_def reindex_def split: option.splits)

lemma pq_min_reindex: "pq_min (reindex f b) (map (reindex f) ys) = reindex f (pq_min b ys)"
  by (induction ys arbitrary: b) (simp_all add: date_cmp_reindex)

lemma inj_reindex: "inj f \<Longrightarrow> inj (reindex f)"
proof (rule injI)
  fix a b :: ranked
  assume f: "inj f" and e: "reindex f a = reindex f b"
  then show "a = b" by (cases a, cases b) (auto simp: reindex_def dest: injD)
qed

lemma remove1_map_inj: "inj g \<Longrightarrow> remove1 (g m) (map g q) = map g (remove1 m q)"
  by (induction q) (auto dest: injD)

lemma pq_pop_reindex:
  assumes "inj f" and "pq_pop q = Some (m, q')"
  shows "pq_pop (map (reindex f) q) = Some (reindex f m, map (reindex f) q')"
proof -
  from assms(2) obtain x xs where q: "q = x # xs" by (cases q) auto
  from assms(2) q have m: "m = pq_min x xs" and q': "q' = remove1 m (x # xs)"
    by (auto simp add: Let_def simp del: remove1.simps)
  have "pq_pop (map (reindex f) q)
      = Some (reindex f m, remove1 (reindex f m) (map (reindex f) (x # xs)))"
    unfolding q m by (simp add: Let_def pq_min_reindex del: remove1.simps)
  also have "remove1 (reindex f m) (map (reindex f) (x # xs)) = map (reindex f) q'"
    unfolding q' by (rule remove1_map_inj [OF inj_reindex [OF assms(1)]])
  finally show ?thesis .
qed

text \<open>
  C8 (as amended). The ordering structure hands out the ranked entries by timestamp
  ascending: the one it hands out is one of those it held and none of them has an
  earlier timestamp. The comparator that both engines give it reads the two
  timestamps and nothing else; for two entries with the same timestamp it answers 0
  whatever their source indices. So the source index plays no part in which entry is
  handed out: when the sources are given other numbers, the structure hands out the
  entry in the same place and keeps the same others. Timestamp ties are not broken by
  source index.
\<close>

theorem ordering_by_timestamp_only:
  assumes "\<forall>r\<in>set q. logEntry r \<noteq> LFalse" and "pq_pop q = Some (m, q')" and "inj f"
  shows "m \<in> set q \<and> (\<forall>r\<in>set q. stamp m \<le> stamp r) \<and> mset q = add_mset m (mset q') \<and>
         (\<forall>a\<in>set q. \<forall>b\<in>set q.
            negative (date_cmp a b) = (stamp a < stamp b) \<and>
            (stamp a = stamp b \<longrightarrow> date_cmp a b = Some 0) \<and>
            date_cmp (reindex f a) (reindex f b) = date_cmp a b) \<and>
         pq_pop (map (reindex f) q) = Some (reindex f m, map (reindex f) q')"
proof -
  have tie: "date_cmp a b = Some 0"
    if "logEntry a \<noteq> LFalse" "logEntry b \<noteq> LFalse" "stamp a = stamp b" for a b
    using that
    by (cases "logEntry a"; cases "logEntry b")
       (simp_all add: date_cmp_def stamp_def to_double_0)
  from assms(1) tie negative_cmp_stamp
  have "\<forall>a\<in>set q. \<forall>b\<in>set q.
            negative (date_cmp a b) = (stamp a < stamp b) \<and>
            (stamp a = stamp b \<longrightarrow> date_cmp a b = Some 0) \<and>
            date_cmp (reindex f a) (reindex f b) = date_cmp a b"
    by (simp add: date_cmp_reindex)
  with pq_pop_remove1(1) [OF assms(2)] pq_pop_least [OF assms(2,1)] pq_pop_mset [OF assms(2)]
    pq_pop_reindex [OF assms(3,2)]
  show ?thesis by blast
qed

text \<open>
  The structure holds the entry of source 1 with timestamp 5 and, put in after it, the
  entry of source 0 with the same timestamp: it hands out the one of source 1, and
  does so too when the two sources have each other's number.
\<close>

theorem ordering_by_timestamp_only_witness:
  "pq_pop [\<lparr>logEntry = LEntry \<lparr>date = 5, msg = ''b''\<rparr>, logSourceIndex = 1\<rparr>,
           \<lparr>logEntry = LEntry \<lparr>date = 5, msg = ''a''\<rparr>, logSourceIndex = 0\<rparr>]
     = Some (\<lparr>logEntry = LEntry \<lparr>date = 5, msg = ''b''\<rparr>, logSourceIndex = 1\<rparr>,
             [\<lparr>logEntry = LEntry \<lparr>date = 5, msg = ''a''\<rparr>, logSourceIndex = 0\<rparr>]) \<and>
   inj (\<lambda>i::nat. if i = 0 then 1 else if i = 1 then 0 else i) \<and>
   pq_pop [\<lparr>logEntry = LEntry \<lparr>date = 5, msg = ''b''\<rparr>, logSourceIndex = 0\<rparr>,
           \<lparr>logEntry = LEntry \<lparr>date = 5, msg = ''a''\<rparr>, logSourceIndex = 1\<rparr>]
     = Some (\<lparr>logEntry = LEntry \<lparr>date = 5, msg = ''b''\<rparr>, logSourceIndex = 0\<rparr>,
             [\<lparr>logEntry = LEntry \<lparr>date = 5, msg = ''a''\<rparr>, logSourceIndex = 1\<rparr>]) \<and>
   date_cmp \<lparr>logEntry = LEntry \<lparr>date = 5, msg = ''b''\<rparr>, logSourceIndex = 1\<rparr>
            \<lparr>logEntry = LEntry \<lparr>date = 5, msg = ''a''\<rparr>, logSourceIndex = 0\<rparr> = Some 0"
proof -
  let ?b = "\<lparr>logEntry = LEntry \<lparr>date = 5, msg = ''b''\<rparr>, logSourceIndex = 1\<rparr>"
  let ?a = "\<lparr>logEntry = LEntry \<lparr>date = 5, msg = ''a''\<rparr>, logSourceIndex = 0\<rparr>"
  let ?f = "\<lambda>i::nat. if i = 0 then 1 else if i = 1 then 0 else i"
  have e: "\<forall>r\<in>set [?b, ?a]. logEntry r \<noteq> LFalse" by simp
  have p: "pq_pop [?b, ?a] = Some (?b, [?a])" by code_simp
  have i: "inj ?f" by (auto simp: inj_def split: if_splits)
  note inst = ordering_by_timestamp_only [OF e p i]
  from inst have "pq_pop (map (reindex ?f) [?b, ?a]) = Some (reindex ?f ?b, map (reindex ?f) [?a])"
    by blast
  then have r: "pq_pop [\<lparr>logEntry = LEntry \<lparr>date = 5, msg = ''b''\<rparr>, logSourceIndex = 0\<rparr>,
           \<lparr>logEntry = LEntry \<lparr>date = 5, msg = ''a''\<rparr>, logSourceIndex = 1\<rparr>]
     = Some (\<lparr>logEntry = LEntry \<lparr>date = 5, msg = ''b''\<rparr>, logSourceIndex = 0\<rparr>,
             [\<lparr>logEntry = LEntry \<lparr>date = 5, msg = ''a''\<rparr>, logSourceIndex = 1\<rparr>])"
    by (simp add: reindex_def)
  from inst have "stamp ?b = stamp ?a \<longrightarrow> date_cmp ?b ?a = Some 0" by simp
  then have c: "date_cmp ?b ?a = Some 0" by (simp add: stamp_def)
  from p i r c show ?thesis by blast
qed

text \<open>
  C8 as stated fails: it has entries with equal timestamps emitted in the order of
  their source indices. Source 0 yields timestamps 4 and 5, source 1 yields timestamp
  5. The pipelined engine prints the entry of source 1 with timestamp 5 before the
  entry of source 0 with timestamp 5: when source 0 delivers it, the one of source 1 is
  in the queue already, and the comparator answers 0 for the two.
\<close>

theorem equal_timestamps_counterexample:
  "status (async_merge
     [[Returns (LEntry \<lparr>date = 4, msg = ''source 0, first''\<rparr>),
       Returns (LEntry \<lparr>date = 5, msg = ''source 0, second''\<rparr>)],
      [Returns (LEntry \<lparr>date = 5, msg = ''source 1, first''\<rparr>)]]) = Completed \<and>
   emitted (trace (async_merge
     [[Returns (LEntry \<lparr>date = 4, msg = ''source 0, first''\<rparr>),
       Returns (LEntry \<lparr>date = 5, msg = ''source 0, second''\<rparr>)],
      [Returns (LEntry \<lparr>date = 5, msg = ''source 1, first''\<rparr>)]]))
     = [LEntry \<lparr>date = 4, msg = ''source 0, first''\<rparr>,
        LEntry \<lparr>date = 5, msg = ''source 1, first''\<rparr>,
        LEntry \<lparr>date = 5, msg = ''source 0, second''\<rparr>]"
  by code_simp

text \<open>
  What has been printed is in timestamp order and not later than anything queued or
  still to come; a queued entry is not later than what its own source will still give;
  and each source gives what it has left in timestamp order.
\<close>

definition ordered :: invariant where
  "ordered U q ss ps tr \<longleftrightarrow>
     sorted (map (\<lambda>v. date (the_entry v)) (emitted tr)) \<and>
     (\<forall>x\<in>set (emitted tr). \<forall>r\<in>set q. date (the_entry x) \<le> stamp r) \<and>
     (\<forall>x\<in>set (emitted tr). \<forall>i. \<forall>y\<in>set (upcoming ss ps i). date (the_entry x) \<le> date y) \<and>
     (\<forall>r\<in>set q. \<forall>y\<in>set (upcoming ss ps (logSourceIndex r)). stamp r \<le> date y) \<and>
     (\<forall>i. sorted (map date (upcoming ss ps i)))"

lemma steps_ordered:
  "steps_under (\<lambda>U q ss ps tr. shape U q ss ps tr \<and> accounted srcs U q ss ps tr) ordered"
proof (rule steps_underI)
  fix q ss ps tr item q'
  assume Q: "shape {} q ss ps tr \<and> accounted srcs {} q ss ps tr"
    and o: "ordered {} q ss ps tr" and p: "pq_pop q = Some (item, q')"
  from Q have dom: "dom ps = logSourceIndex ` set q" and ent: "\<forall>r\<in>set q. logEntry r \<noteq> LFalse"
    unfolding shape_def accounted_def by auto
  from pq_pop_remove1 [OF p] have m: "item \<in> set q" and q': "set q' \<subseteq> set q"
    using set_remove1_subset [of item q] by auto
  note least = pq_pop_least [OF p ent]
  from o have o1: "sorted (map (\<lambda>v. date (the_entry v)) (emitted tr))"
    and o2: "\<forall>x\<in>set (emitted tr). \<forall>r\<in>set q. date (the_entry x) \<le> stamp r"
    and o3: "\<forall>x\<in>set (emitted tr). \<forall>i. \<forall>y\<in>set (upcoming ss ps i). date (the_entry x) \<le> date y"
    and o4: "\<forall>r\<in>set q. \<forall>y\<in>set (upcoming ss ps (logSourceIndex r)). stamp r \<le> date y"
    and o5: "\<forall>i. sorted (map date (upcoming ss ps i))"
    unfolding ordered_def by blast+
  let ?v = "logEntry item"
  have v: "date (the_entry ?v) = stamp item" by (simp add: stamp_def)
  have up: "stamp item \<le> date y" if "y \<in> set (upcoming ss ps i)" for i y
  proof (cases "ps i")
    case None
    from future_absent(1) [where ps = ps and i = i and ss = ss, OF this] that
    show ?thesis by simp
  next
    case (Some a)
    then have "i \<in> dom ps" by auto
    with dom obtain r where r: "r \<in> set q" and i: "logSourceIndex r = i" by auto
    from least r have "stamp item \<le> stamp r" by blast
    also from o4 r i that have "stamp r \<le> date y" by blast
    finally show ?thesis .
  qed
  have 1: "sorted (map (\<lambda>v. date (the_entry v)) (emitted tr @ [?v]))"
    using o1 o2 m v by (auto simp: sorted_append)
  have 2: "\<forall>x\<in>set (emitted tr @ [?v]). \<forall>r\<in>set q'. date (the_entry x) \<le> stamp r"
    using o2 q' least v by auto
  have 3: "\<forall>x\<in>set (emitted tr @ [?v]). \<forall>i. \<forall>y\<in>set (upcoming ss ps i). date (the_entry x) \<le> date y"
    using o3 up v by auto
  have 4: "\<forall>r\<in>set q'. \<forall>y\<in>set (upcoming ss ps (logSourceIndex r)). stamp r \<le> date y"
    using o4 q' by blast
  from 1 2 3 4 o5
  show "ordered {logSourceIndex item} q' ss ps (tr @ [Print (logEntry item)])"
    unfolding ordered_def by (simp add: emitted_append)
next
  fix U q ss ps tr i
  assume o: "ordered U q ss ps tr" and f: "ps i = Some (Returns LFalse)"
  then show "ordered (U - {i}) q ss (ps(i := None)) (tr @ [Await i (Returns LFalse)])"
    unfolding ordered_def
    by (simp add: future_false [where ps = ps and i = i, OF f] emitted_append)
next
  fix U q ss ps tr i e r s'
  assume Q: "shape U q ss ps tr \<and> accounted srcs U q ss ps tr"
    and o: "ordered U q ss ps tr" and i: "i \<in> U"
    and f: "ps i = Some (Returns (LEntry e))" and p: "pop (ss ! i) = (r, s')"
  from Q i have il: "i < length ss" and ni: "\<forall>r\<in>set q. logSourceIndex r \<noteq> i"
    unfolding shape_def by auto
  note fe = future_entry [where ps = ps and i = i, OF f p il]
  let ?new = "\<lparr>logEntry = LEntry e, logSourceIndex = i\<rparr>"
  let ?ss = "ss[i := s']" and ?ps = "ps(i \<mapsto> r)"
  from o have o1: "sorted (map (\<lambda>v. date (the_entry v)) (emitted tr))"
    and o2: "\<forall>x\<in>set (emitted tr). \<forall>r\<in>set q. date (the_entry x) \<le> stamp r"
    and o3: "\<forall>x\<in>set (emitted tr). \<forall>i. \<forall>y\<in>set (upcoming ss ps i). date (the_entry x) \<le> date y"
    and o4: "\<forall>r\<in>set q. \<forall>y\<in>set (upcoming ss ps (logSourceIndex r)). stamp r \<le> date y"
    and o5: "\<forall>i. sorted (map date (upcoming ss ps i))"
    unfolding ordered_def by blast+
  have st: "stamp ?new = date e" by (simp add: stamp_def)
  from o5 have "sorted (map date (upcoming ss ps i))" by blast
  then have s5: "sorted (map date (produced (ss ! i)))"
    and s4: "\<forall>y\<in>set (produced (ss ! i)). date e \<le> date y"
    unfolding fe(2) by auto
  have sub: "set (upcoming ?ss ?ps j) \<subseteq> set (upcoming ss ps j)" for j
    unfolding fe(1) by (auto simp: fe(2))
  have 2: "\<forall>x\<in>set (emitted tr). \<forall>r\<in>set (q @ [?new]). date (the_entry x) \<le> stamp r"
  proof (intro ballI)
    fix x r assume x: "x \<in> set (emitted tr)" and r: "r \<in> set (q @ [?new])"
    have "e \<in> set (upcoming ss ps i)" by (simp add: fe(2))
    with o3 x have "date (the_entry x) \<le> date e" by blast
    with o2 x r st show "date (the_entry x) \<le> stamp r" by auto
  qed
  have 3: "\<forall>x\<in>set (emitted tr). \<forall>j. \<forall>y\<in>set (upcoming ?ss ?ps j). date (the_entry x) \<le> date y"
    using o3 sub by blast
  have 4: "\<forall>r\<in>set (q @ [?new]). \<forall>y\<in>set (upcoming ?ss ?ps (logSourceIndex r)). stamp r \<le> date y"
  proof (intro ballI)
    fix r y assume r: "r \<in> set (q @ [?new])"
      and y: "y \<in> set (upcoming ?ss ?ps (logSourceIndex r))"
    show "stamp r \<le> date y"
    proof (cases "r \<in> set q")
      case True
      with ni have "logSourceIndex r \<noteq> i" by blast
      with y have "y \<in> set (upcoming ss ps (logSourceIndex r))" by (simp add: fe(1))
      with o4 True show ?thesis by blast
    next
      case False
      with r have r: "r = ?new" by simp
      with y have "y \<in> set (produced (ss ! i))" by (simp add: fe(1))
      with s4 r st show ?thesis by simp
    qed
  qed
  have 5: "\<forall>j. sorted (map date (upcoming ?ss ?ps j))"
    using o5 s5 by (simp add: fe(1))
  from o1 2 3 4 5
  show "ordered (U - {i}) (q @ [?new]) ?ss ?ps (tr @ [Await i (Returns (LEntry e)), PopAsync i])"
    unfolding ordered_def by (simp add: emitted_append)
qed

lemma emitted_init: "emitted (map PopAsync js) = []"
  by (induction js) simp_all

lemma ordered_init:
  assumes "\<forall>s\<in>set srcs. sorted (map date (produced s))"
  shows "ordered {..<length srcs} [] (map (\<lambda>s. snd (pop s)) srcs)
     (\<lambda>i. if i < length srcs then Some (fst (pop (srcs ! i))) else None)
     (map PopAsync [0..<length srcs])"
proof -
  let ?ss = "map (\<lambda>s. snd (pop s)) srcs"
  let ?ps = "\<lambda>i. if i < length srcs then Some (fst (pop (srcs ! i))) else None"
  have "sorted (map date (upcoming ?ss ?ps i))" for i
  proof (cases "i < length srcs")
    case True
    with assms show ?thesis by (simp add: future_init(1) [OF True])
  next
    case False
    then have "?ps i = None" by simp
    from future_absent(1) [where ps = ?ps and i = i and ss = ?ss, OF this]
    show ?thesis by simp
  qed
  then show ?thesis unfolding ordered_def by (simp add: emitted_init)
qed

lemma sum_produced:
  "(\<Sum>i<length srcs. mset (produced (srcs ! i))) = mset (concat (map produced srcs))"
proof (induction srcs rule: rev_induct)
  case Nil
  show ?case by simp
next
  case (snoc s srcs)
  have "(\<Sum>i<length srcs. mset (produced ((srcs @ [s]) ! i)))
      = (\<Sum>i<length srcs. mset (produced (srcs ! i)))"
    by (rule sum.cong) (simp_all add: nth_append)
  with snoc show ?case by simp
qed

lemma no_false_map: "LFalse \<notin> set vs \<Longrightarrow> map LEntry (map the_entry vs) = vs"
proof (induction vs)
  case Nil
  show ?case by simp
next
  case (Cons v vs)
  then show ?case by (cases v) simp_all
qed


text \<open>
  C2 (as amended). For every finite list of asynchronous sources none of which fails
  and each of which yields its entries in non-decreasing timestamp order, the
  pipelined engine completes; what it has printed by then is exactly the entries that
  the sources produced before their exhaustion, each as often as it was produced, in
  non-decreasing timestamp order; and \<^verbatim>\<open>printer.done()\<close> is called once, as the last
  thing the run does.
\<close>

theorem async_merge_sorted_complete:
  assumes "\<forall>s\<in>set srcs. \<not> fails s \<and> sorted (map date (produced s))"
  shows "status (async_merge srcs) = Completed \<and>
         (\<exists>tr out. trace (async_merge srcs) = tr @ [Done] \<and> Done \<notin> set tr \<and>
            emitted tr = map LEntry out \<and> sorted (map date out) \<and>
            mset out = mset (concat (map produced srcs)))"
proof -
  let ?r = "async_merge srcs"
  let ?n = "length srcs"
  let ?A = "\<lambda>U q ss ps tr. shape U q ss ps tr \<and> accounted srcs U q ss ps tr"
  let ?Q = "\<lambda>U q ss ps tr. ?A U q ss ps tr \<and> ordered U q ss ps tr"
  have st: "steps ?Q"
    by (rule steps_conj [OF steps_conj [OF steps_shape_inv steps_accounted] steps_ordered])
  have "?Q {..<?n} [] (map (\<lambda>s. snd (pop s)) srcs)
          (\<lambda>i. if i < ?n then Some (fst (pop (srcs ! i))) else None) (map PopAsync [0..<?n])"
    using assms by (simp add: shape_init accounted_init ordered_init)
  from async_merge_rule [OF st this]
  have "completed ?Q ?r \<or> aborted ?Q ?r \<or> refused srcs ?r" .
  moreover have "\<not> aborted ?Q ?r"
    by (rule accounted_not_aborted [where srcs = srcs]) simp
  moreover have "\<not> refused srcs ?r"
    by (rule sound_not_refused) (use assms in blast)
  ultimately have "completed ?Q ?r" by blast
  then obtain tr where c: "status ?r = Completed" and t: "trace ?r = tr @ [Done]"
    and s: "shape {} [] (logSources ?r) (logEntryPromises ?r) tr"
    and a: "accounted srcs {} [] (logSources ?r) (logEntryPromises ?r) tr"
    and o: "ordered {} [] (logSources ?r) (logEntryPromises ?r) tr"
    unfolding completed_def by blast
  let ?out = "map the_entry (emitted tr)"
  from s have "logEntryPromises ?r j = None" for j unfolding shape_def by auto
  then have up: "upcoming (logSources ?r) (logEntryPromises ?r) j = []" for j
    by (simp add: upcoming_def future_def)
  from a have nf: "LFalse \<notin> set (emitted tr)"
    and m: "mset ?out = (\<Sum>i<?n. mset (produced (srcs ! i)))"
    unfolding accounted_def by (simp_all add: up)
  from o have so: "sorted (map date ?out)"
    unfolding ordered_def by (simp add: comp_def)
  from async_merge_ended [of srcs] c t have d: "Done \<notin> set tr"
    by (auto simp: ended_def clean_def)
  from no_false_map [OF nf] have "emitted tr = map LEntry ?out" by simp
  with c t d so m show ?thesis
    unfolding sum_produced by blast
qed

theorem async_merge_sorted_complete_witness:
  "\<not> fails [Returns (LEntry \<lparr>date = 1, msg = ''a''\<rparr>), Returns (LEntry \<lparr>date = 3, msg = ''c''\<rparr>)] \<and>
   sorted (map date (produced
     [Returns (LEntry \<lparr>date = 1, msg = ''a''\<rparr>), Returns (LEntry \<lparr>date = 3, msg = ''c''\<rparr>)])) \<and>
   \<not> fails [Returns (LEntry \<lparr>date = 2, msg = ''b''\<rparr>)] \<and>
   sorted (map date (produced [Returns (LEntry \<lparr>date = 2, msg = ''b''\<rparr>)])) \<and>
   status (async_merge
     [[Returns (LEntry \<lparr>date = 1, msg = ''a''\<rparr>), Returns (LEntry \<lparr>date = 3, msg = ''c''\<rparr>)],
      [Returns (LEntry \<lparr>date = 2, msg = ''b''\<rparr>)]]) = Completed \<and>
   emitted (trace (async_merge
     [[Returns (LEntry \<lparr>date = 1, msg = ''a''\<rparr>), Returns (LEntry \<lparr>date = 3, msg = ''c''\<rparr>)],
      [Returns (LEntry \<lparr>date = 2, msg = ''b''\<rparr>)]]))
     = [LEntry \<lparr>date = 1, msg = ''a''\<rparr>, LEntry \<lparr>date = 2, msg = ''b''\<rparr>,
        LEntry \<lparr>date = 3, msg = ''c''\<rparr>]"
proof -
  let ?srcs = "[[Returns (LEntry \<lparr>date = 1, msg = ''a''\<rparr>), Returns (LEntry \<lparr>date = 3, msg = ''c''\<rparr>)],
      [Returns (LEntry \<lparr>date = 2, msg = ''b''\<rparr>)]]"
  have h: "\<forall>s\<in>set ?srcs. \<not> fails s \<and> sorted (map date (produced s))" by simp
  have c: "status (async_merge ?srcs) = Completed"
    using async_merge_sorted_complete [OF h] by blast
  have e: "emitted (trace (async_merge ?srcs))
     = [LEntry \<lparr>date = 1, msg = ''a''\<rparr>, LEntry \<lparr>date = 2, msg = ''b''\<rparr>,
        LEntry \<lparr>date = 3, msg = ''c''\<rparr>]"
    by code_simp
  from h c e show ?thesis by simp
qed


text \<open>
  C2 as stated fails: it asks for a sorted output from every list of sources. A single
  source that yields timestamp 5 and then timestamp 1 gets both entries printed in
  that order.
\<close>

theorem async_unsorted_source_counterexample:
  "status (async_merge
     [[Returns (LEntry \<lparr>date = 5, msg = ''a''\<rparr>), Returns (LEntry \<lparr>date = 1, msg = ''b''\<rparr>)]])
     = Completed \<and>
   emitted (trace (async_merge
     [[Returns (LEntry \<lparr>date = 5, msg = ''a''\<rparr>), Returns (LEntry \<lparr>date = 1, msg = ''b''\<rparr>)]]))
     = [LEntry \<lparr>date = 5, msg = ''a''\<rparr>, LEntry \<lparr>date = 1, msg = ''b''\<rparr>] \<and>
   \<not> sorted (map date [\<lparr>date = 5, msg = ''a''\<rparr>, \<lparr>date = 1, msg = ''b''\<rparr>])"
  by code_simp


end
